theory Spec2Isabelle
  imports Complex_Main "HOL-Library.Sublist" "HOL-Library.Multiset"
begin

section \<open>Resume text extraction: \<^verbatim>\<open>src/lib/parser.ts\<close>\<close>

text \<open>
  The parser works on JavaScript strings, sequences of UTF-16 code units. The model keeps
  the code units below 256 (ASCII and Latin-1), one \<^typ>\<open>char\<close> each, and the bullet
  U+2022, the one code unit from 256 on that the source names (in two character
  classes). A text is a list of these, so that \<^const>\<open>length\<close> counts what
  \<^verbatim>\<open>.length\<close> counts. On these code units the classes \<^verbatim>\<open>\s\<close> and \<^verbatim>\<open>\d\<close>,
  \<^verbatim>\<open>trim\<close>, \<^verbatim>\<open>toLowerCase\<close> and the case folding of the \<^verbatim>\<open>i\<close> flag are written
  out below.
\<close>

subsection \<open>Characters\<close>

datatype cunit = Ch char | Bullet

type_synonym ustring = "cunit list"

text \<open>A string literal of the source, all of whose characters are below 256.\<close>

abbreviation str :: "string \<Rightarrow> ustring" where
  "str s \<equiv> map Ch s"

definition LF :: cunit where
  "LF = Ch (CHR 0x0A)"

definition CR :: cunit where
  "CR = Ch (CHR 0x0D)"

text \<open>
  \<^verbatim>\<open>\s\<close>, and the characters \<^verbatim>\<open>trim\<close> removes: TAB, LF, VT, FF, CR, SP, NBSP. The
  bullet is not among them.
\<close>

definition space_chars :: ustring where
  "space_chars = str [CHR 0x09, CHR 0x0A, CHR 0x0B, CHR 0x0C, CHR 0x0D, CHR 0x20, CHR 0xA0]"

definition is_space :: "cunit \<Rightarrow> bool" where
  "is_space c = (c \<in> set space_chars)"

definition digit_chars :: ustring where
  "digit_chars = str ''0123456789''"

definition upper_chars :: ustring where
  "upper_chars = str ''ABCDEFGHIJKLMNOPQRSTUVWXYZ''"

definition is_digit :: "cunit \<Rightarrow> bool" where
  "is_digit c = (c \<in> set digit_chars)"

text \<open>
  \<^verbatim>\<open>toLowerCase\<close> on one code unit: A-Z, and the Latin-1 capitals U+00C0-U+00DE
  without the multiplication sign U+00D7, move up by 32. The bullet is no letter.
\<close>

definition toLowerLatin1 :: "char \<Rightarrow> char" where
  "toLowerLatin1 c =
     (let n = (of_char c :: nat)
      in if (65 \<le> n \<and> n \<le> 90) \<or> (192 \<le> n \<and> n \<le> 222 \<and> n \<noteq> 215)
         then char_of (n + 32) else c)"

fun toLowerChar :: "cunit \<Rightarrow> cunit" where
  "toLowerChar (Ch c) = Ch (toLowerLatin1 c)"
| "toLowerChar Bullet = Bullet"

definition toLowerCase :: "ustring \<Rightarrow> ustring" where
  "toLowerCase s = map toLowerChar s"

text \<open>
  The canonical form a regular expression with the \<^verbatim>\<open>i\<close> flag compares (upper case):
  a-z, and the Latin-1 small letters U+00E0-U+00FE without the division sign U+00F7,
  move down by 32. The sharp s, the micro sign and U+00FF have no upper case below 256
  and stay, and so does the bullet.
\<close>

definition toUpperLatin1 :: "char \<Rightarrow> char" where
  "toUpperLatin1 c =
     (let n = (of_char c :: nat)
      in if (97 \<le> n \<and> n \<le> 122) \<or> (224 \<le> n \<and> n \<le> 254 \<and> n \<noteq> 247)
         then char_of (n - 32) else c)"

fun toUpperChar :: "cunit \<Rightarrow> cunit" where
  "toUpperChar (Ch c) = Ch (toUpperLatin1 c)"
| "toUpperChar Bullet = Bullet"

definition canon :: "bool \<Rightarrow> cunit \<Rightarrow> cunit" where
  "canon ic c = (if ic then toUpperChar c else c)"

subsection \<open>String operations of the JavaScript library\<close>

text \<open>\<^verbatim>\<open>s.trim()\<close>.\<close>

definition trim :: "ustring \<Rightarrow> ustring" where
  "trim s = rev (dropWhile is_space (rev (dropWhile is_space s)))"

text \<open>
  \<^verbatim>\<open>s.replace(/C{m,}/g, rep)\<close> for a character class \<open>C\<close> and \<open>m \<ge> 1\<close>: scanning from
  the left, every maximal run of at least \<open>m\<close> characters of the class is replaced by
  \<open>rep\<close>; a shorter run stays.
\<close>

function replace_runs :: "(cunit \<Rightarrow> bool) \<Rightarrow> nat \<Rightarrow> ustring \<Rightarrow> ustring \<Rightarrow> ustring" where
  "replace_runs P m rep [] = []"
| "replace_runs P m rep (c # cs) =
     (if P c \<and> m \<le> length (takeWhile P (c # cs))
      then rep @ replace_runs P m rep (dropWhile P cs)
      else c # replace_runs P m rep cs)"
  by pat_completeness auto
termination
  by (relation "measure (\<lambda>(P, m, rep, s). length s)")
     (auto simp: less_Suc_eq_le length_dropWhile_le)

text \<open>\<^verbatim>\<open>s.includes(w)\<close>.\<close>

fun str_includes :: "ustring \<Rightarrow> ustring \<Rightarrow> bool" where
  "str_includes [] w = (w = [])"
| "str_includes (c # cs) w = (take (length w) (c # cs) = w \<or> str_includes cs w)"

text \<open>
  \<^verbatim>\<open>s.split(sep)\<close> for a separator of one character (a string of length one, or a
  character class): the pieces between the separators, empty pieces included.
\<close>

fun split_acc :: "(cunit \<Rightarrow> bool) \<Rightarrow> ustring \<Rightarrow> ustring \<Rightarrow> ustring list" where
  "split_acc P acc [] = [rev acc]"
| "split_acc P acc (c # cs) =
     (if P c then rev acc # split_acc P [] cs else split_acc P (c # acc) cs)"

definition split_on :: "(cunit \<Rightarrow> bool) \<Rightarrow> ustring \<Rightarrow> ustring list" where
  "split_on P s = split_acc P [] s"

text \<open>\<^verbatim>\<open>Array.from(new Set(xs))\<close>: the first occurrence of each value, in order.\<close>

definition array_from_set :: "'a list \<Rightarrow> 'a list" where
  "array_from_set xs = foldl (\<lambda>acc x. if x \<in> set acc then acc else acc @ [x]) [] xs"

text \<open>\<^verbatim>\<open>xs.findIndex(p)\<close>, with \<open>None\<close> for -1.\<close>

fun findIndex :: "('a \<Rightarrow> bool) \<Rightarrow> 'a list \<Rightarrow> nat option" where
  "findIndex P [] = None"
| "findIndex P (x # xs) = (if P x then Some 0 else map_option Suc (findIndex P xs))"

text \<open>
  \<^verbatim>\<open>xs.sort(cmp)\<close>: a stable sort; \<open>x\<close> stays before \<open>y\<close> unless \<open>cmp x y > 0\<close>.
  The scores compared are JavaScript numbers; the model computes them as exact rationals.
\<close>

fun insert_by :: "('a \<Rightarrow> 'a \<Rightarrow> rat) \<Rightarrow> 'a \<Rightarrow> 'a list \<Rightarrow> 'a list" where
  "insert_by cmp x [] = [x]"
| "insert_by cmp x (y # ys) = (if cmp x y \<le> 0 then x # y # ys else y # insert_by cmp x ys)"

definition sort_by :: "('a \<Rightarrow> 'a \<Rightarrow> rat) \<Rightarrow> 'a list \<Rightarrow> 'a list" where
  "sort_by cmp xs = foldr (insert_by cmp) xs []"

subsection \<open>Regular expressions\<close>

text \<open>
  The patterns of the source with alternatives, optional groups or capture groups are
  kept as terms and run by a backtracking matcher. Every quantifier of the source with
  more than one repetition stands on a character class, so repetition is a constructor on
  classes: \<open>Rep A m mx\<close> is the greedy \<^verbatim>\<open>A{m,mx}\<close> and \<open>RepLazy A m\<close> the lazy
  \<^verbatim>\<open>A{m,}?\<close>.
\<close>

datatype cclass = Pos ustring | Neg ustring

fun in_class :: "bool \<Rightarrow> cclass \<Rightarrow> cunit \<Rightarrow> bool" where
  "in_class ic (Pos A) c = (canon ic c \<in> set (map (canon ic) A))"
| "in_class ic (Neg A) c = (canon ic c \<notin> set (map (canon ic) A))"

datatype rx =
    Lit ustring
  | Cls cclass
  | Seq rx rx
  | Alt rx rx
  | Opt rx
  | Rep cclass nat "nat option"
  | RepLazy cclass nat
  | Grp nat rx
  | Bol
  | Eol

text \<open>
  A matcher state: whether the position is the start of the input, the input that is
  left, and the capture groups set so far.
\<close>

type_synonym caps = "nat \<Rightarrow> ustring option"
type_synonym mstate = "bool \<times> ustring \<times> caps"

definition run_len :: "bool \<Rightarrow> cclass \<Rightarrow> nat option \<Rightarrow> ustring \<Rightarrow> nat" where
  "run_len ic A mx s =
     (let k = length (takeWhile (in_class ic A) s)
      in case mx of None \<Rightarrow> k | Some n \<Rightarrow> min n k)"

definition advance :: "mstate \<Rightarrow> nat \<Rightarrow> mstate" where
  "advance st k = (case st of (b, s, g) \<Rightarrow> (b \<and> k = 0, drop k s, g))"

text \<open>
  All the ways the pattern matches at the current position, in the order backtracking
  tries them; the first is the match.
\<close>

fun rmatch :: "bool \<Rightarrow> rx \<Rightarrow> mstate \<Rightarrow> mstate list" where
  "rmatch ic (Lit w) (b, s, g) =
     (if length w \<le> length s \<and> map (canon ic) (take (length w) s) = map (canon ic) w
      then [advance (b, s, g) (length w)] else [])"
| "rmatch ic (Cls A) (b, s, g) =
     (case s of [] \<Rightarrow> [] | c # cs \<Rightarrow> if in_class ic A c then [(False, cs, g)] else [])"
| "rmatch ic (Seq r1 r2) st = concat (map (rmatch ic r2) (rmatch ic r1 st))"
| "rmatch ic (Alt r1 r2) st = rmatch ic r1 st @ rmatch ic r2 st"
| "rmatch ic (Opt r) st = rmatch ic r st @ [st]"
| "rmatch ic (Rep A m mx) (b, s, g) =
     map (advance (b, s, g)) (rev [m ..< Suc (run_len ic A mx s)])"
| "rmatch ic (RepLazy A m) (b, s, g) =
     map (advance (b, s, g)) [m ..< Suc (run_len ic A None s)]"
| "rmatch ic (Grp i r) (b, s, g) =
     map (\<lambda>(b', s', g'). (b', s', g'(i \<mapsto> take (length s - length s') s)))
         (rmatch ic r (b, s, g))"
| "rmatch ic Bol (b, s, g) = (if b then [(b, s, g)] else [])"
| "rmatch ic Eol (b, s, g) = (if s = [] then [(b, s, g)] else [])"

definition seqs :: "rx list \<Rightarrow> rx" where
  "seqs rs = foldr Seq rs (Lit [])"

definition alts :: "rx list \<Rightarrow> rx" where
  "alts rs = foldr Alt (butlast rs) (last rs)"

text \<open>The match at one position: the matched text and the capture groups.\<close>

definition exec_at :: "bool \<Rightarrow> rx \<Rightarrow> bool \<Rightarrow> ustring \<Rightarrow> (ustring \<times> caps) option" where
  "exec_at ic r b s =
     (case rmatch ic r (b, s, Map.empty) of
        [] \<Rightarrow> None
      | (b', s', g) # _ \<Rightarrow> Some (take (length s - length s') s, g))"

text \<open>
  \<^verbatim>\<open>s.match(re)\<close> without the \<^verbatim>\<open>g\<close> flag: the leftmost position with a match, its
  index, text and groups.
\<close>

fun search :: "bool \<Rightarrow> rx \<Rightarrow> bool \<Rightarrow> ustring \<Rightarrow> (nat \<times> ustring \<times> caps) option" where
  "search ic r b [] = map_option (\<lambda>(m, g). (0, m, g)) (exec_at ic r b [])"
| "search ic r b (c # cs) =
     (case exec_at ic r b (c # cs) of
        Some (m, g) \<Rightarrow> Some (0, m, g)
      | None \<Rightarrow> map_option (\<lambda>(i, m, g). (Suc i, m, g)) (search ic r False cs))"

text \<open>\<^verbatim>\<open>s.replace(re, rep)\<close> without the \<^verbatim>\<open>g\<close> flag: the first match is replaced.\<close>

definition replace_first :: "bool \<Rightarrow> rx \<Rightarrow> ustring \<Rightarrow> ustring \<Rightarrow> ustring" where
  "replace_first ic r rep s =
     (case search ic r True s of
        None \<Rightarrow> s
      | Some (i, m, g) \<Rightarrow> take i s @ rep @ drop (i + length m) s)"

text \<open>
  \<^verbatim>\<open>s.match(re)\<close> with the \<^verbatim>\<open>g\<close> flag: the texts of all matches from left to right,
  each search starting where the last match ended (one further after an empty match);
  \<open>skip\<close> counts the characters of the last match still to pass. The result is
  \<^verbatim>\<open>null\<close> when there is no match.
\<close>

fun match_all_from :: "bool \<Rightarrow> rx \<Rightarrow> bool \<Rightarrow> nat \<Rightarrow> ustring \<Rightarrow> ustring list" where
  "match_all_from ic r b skip [] =
     (if skip = 0 then (case exec_at ic r b [] of Some (m, g) \<Rightarrow> [m] | None \<Rightarrow> []) else [])"
| "match_all_from ic r b skip (c # cs) =
     (if 0 < skip then match_all_from ic r False (skip - 1) cs
      else case exec_at ic r b (c # cs) of
             Some (m, g) \<Rightarrow> m # match_all_from ic r False (length m - 1) cs
           | None \<Rightarrow> match_all_from ic r False 0 cs)"

definition match_all :: "bool \<Rightarrow> rx \<Rightarrow> ustring \<Rightarrow> ustring list" where
  "match_all ic r s = match_all_from ic r True 0 s"

definition match_g :: "bool \<Rightarrow> rx \<Rightarrow> ustring \<Rightarrow> ustring list option" where
  "match_g ic r s = (case match_all ic r s of [] \<Rightarrow> None | m # ms \<Rightarrow> Some (m # ms))"

subsection \<open>The patterns and constants of the parser\<close>

text \<open>\<^verbatim>\<open>/https?:\/\/(?:www\.)?github\.com\/[^\s)]+/gi\<close>\<close>

definition GITHUB_REGEX :: rx where
  "GITHUB_REGEX = seqs
     [Lit (str ''http''), Opt (Lit (str ''s'')), Lit (str ''://''), Opt (Lit (str ''www.'')),
      Lit (str ''github.com/''), Rep (Neg (space_chars @ str '')'')) 1 None]"

text \<open>\<^verbatim>\<open>/[A-Z0-9._%+-]+@[A-Z0-9.-]+\.[A-Z]{2,}/gi\<close>\<close>

definition EMAIL_REGEX :: rx where
  "EMAIL_REGEX = seqs
     [Rep (Pos (upper_chars @ digit_chars @ str ''._%+-'')) 1 None,
      Lit (str ''@''),
      Rep (Pos (upper_chars @ digit_chars @ str ''.-'')) 1 None,
      Lit (str ''.''),
      Rep (Pos upper_chars) 2 None]"

text \<open>\<^verbatim>\<open>/(?:\+?\d{1,3}[\s-]?)?(?:\(?\d{3}\)?[\s-]?)?\d{3}[\s-]?\d{4}/g\<close>\<close>

definition PHONE_REGEX :: rx where
  "PHONE_REGEX = seqs
     [Opt (seqs [Opt (Lit (str ''+'')), Rep (Pos digit_chars) 1 (Some 3),
                 Opt (Cls (Pos (space_chars @ str ''-'')))]),
      Opt (seqs [Opt (Lit (str ''('')), Rep (Pos digit_chars) 3 (Some 3), Opt (Lit (str '')'')),
                 Opt (Cls (Pos (space_chars @ str ''-'')))]),
      Rep (Pos digit_chars) 3 (Some 3),
      Opt (Cls (Pos (space_chars @ str ''-''))),
      Rep (Pos digit_chars) 4 (Some 4)]"

text \<open>
  \<^verbatim>\<open>/(skills|technical skills|toolbox|technologies)\s*: ?([\s\S]+?)(?:\n\n|experience|projects|education)/i\<close>
\<close>

definition SKILLS_LABELS :: "ustring list" where
  "SKILLS_LABELS = [str ''skills'', str ''technical skills'', str ''toolbox'', str ''technologies'']"

definition SKILLS_STOPS :: "ustring list" where
  "SKILLS_STOPS = [[LF, LF], str ''experience'', str ''projects'', str ''education'']"

definition SKILLS_REGEX :: rx where
  "SKILLS_REGEX = seqs
     [Grp 1 (alts (map Lit SKILLS_LABELS)),
      Rep (Pos space_chars) 0 None,
      Lit (str '':''),
      Opt (Lit (str '' '')),
      Grp 2 (RepLazy (Neg []) 1),
      alts (map Lit SKILLS_STOPS)]"

text \<open>\<^verbatim>\<open>/[\s,.;)]*$/\<close>, \<^verbatim>\<open>/https?:\/\//\<close>, \<^verbatim>\<open>/www\./\<close> and \<^verbatim>\<open>/^github\.com\/([^\/\s]+)/i\<close>\<close>

definition TRAILING_REGEX :: rx where
  "TRAILING_REGEX = seqs [Rep (Pos (space_chars @ str '',.;)'')) 0 None, Eol]"

definition SCHEME_REGEX :: rx where
  "SCHEME_REGEX = seqs [Lit (str ''http''), Opt (Lit (str ''s'')), Lit (str ''://'')]"

definition WWW_REGEX :: rx where
  "WWW_REGEX = Lit (str ''www.'')"

definition USERNAME_REGEX :: rx where
  "USERNAME_REGEX =
     seqs [Bol, Lit (str ''github.com/''), Grp 1 (Rep (Neg (str ''/'' @ space_chars)) 1 None)]"

definition SUMMARY_KEYWORDS :: "ustring list" where
  "SUMMARY_KEYWORDS =
     [str ''experience'', str ''developed'', str ''engineer'', str ''project'', str ''designed'',
      str ''built'', str ''led'', str ''collaborated'', str ''improved'', str ''delivered'',
      str ''managed'', str ''optimized'', str ''implemented'', str ''created'', str ''modernized'',
      str ''launched'']"

subsection \<open>The parser\<close>

record ParsedResume =
  name :: "ustring option"
  headline :: "ustring option"
  githubUrl :: "ustring option"
  githubUsername :: "ustring option"
  emails :: "ustring list"
  phones :: "ustring list"
  skills :: "ustring list"
  summary :: "ustring list"
  rawText :: ustring

text \<open>
  The one place where the source reads a property of a value that the types do not show
  to be there is \<^verbatim>\<open>sectionBody.split\<close> in \<^verbatim>\<open>extractSkills\<close>: a capture group that
  took no part in the match is \<^verbatim>\<open>undefined\<close>, and the call would throw.
\<close>

datatype error = TypeError

text \<open>\<^verbatim>\<open>text.replace(/\r/g, "\n").replace(/\n{2,}/g, "\n\n").trim()\<close>\<close>

definition cleanText :: "ustring \<Rightarrow> ustring" where
  "cleanText text =
     trim (replace_runs (\<lambda>c. c = LF) 2 [LF, LF] (map (\<lambda>c. if c = CR then LF else c) text))"

fun extractName :: "ustring list \<Rightarrow> ustring option" where
  "extractName [] = None"
| "extractName (line # lines) =
     (let trimmed = trim line in
      if trimmed = [] then extractName lines
      else if length trimmed > 60 then extractName lines
      else if list_ex is_digit trimmed then extractName lines
      else if str_includes (toLowerCase trimmed) (str ''curriculum vitae'') then extractName lines
      else if length (split_on (\<lambda>c. c = Ch (CHR '' '')) trimmed) \<le> 5 then Some trimmed
      else extractName lines)"

definition extractHeadline :: "ustring list \<Rightarrow> ustring option \<Rightarrow> ustring option" where
  "extractHeadline lines nm =
     (case nm of
        None \<Rightarrow> None
      | Some n \<Rightarrow>
          if n = [] then None
          else case findIndex (\<lambda>line. toLowerCase (trim line) = toLowerCase n) lines of
                 None \<Rightarrow> None
               | Some nameIndex \<Rightarrow>
                   if nameIndex + 1 < length lines
                   then (let nextLine = trim (lines ! (nameIndex + 1))
                         in if nextLine \<noteq> [] \<and> length nextLine \<le> 80 then Some nextLine
                            else None)
                   else None)"

text \<open>
  The body is split on \<^verbatim>\<open>/[,\u2022\n]/u\<close>; the pieces are trimmed, those of length
  at most one dropped, and the first 15 kept.
\<close>

definition skillTokens :: "ustring \<Rightarrow> ustring list" where
  "skillTokens sectionBody =
     take 15 (filter (\<lambda>skill. length skill > 1)
       (map trim (split_on (\<lambda>c. c \<in> set [Ch (CHR '',''), Bullet, LF]) sectionBody)))"

definition extractSkills :: "ustring \<Rightarrow> error + ustring list" where
  "extractSkills text =
     (case search True SKILLS_REGEX True text of
        None \<Rightarrow> Inr []
      | Some (i, m, g) \<Rightarrow>
          (case g (2::nat) of
             None \<Rightarrow> Inl TypeError
           | Some sectionBody \<Rightarrow> Inr (skillTokens sectionBody)))"

text \<open>
  \<^verbatim>\<open>s.split(/(?<=[.!?])\s+/)\<close>: a piece ends at a run of white space that follows one
  of \<^verbatim>\<open>.\<close>, \<^verbatim>\<open>!\<close>, \<^verbatim>\<open>?\<close>; the run is dropped. \<open>acc\<close> is the current piece, reversed.
\<close>

function split_sentences :: "ustring \<Rightarrow> ustring \<Rightarrow> ustring list" where
  "split_sentences acc [] = [rev acc]"
| "split_sentences acc (c # cs) =
     (if is_space c \<and> acc \<noteq> [] \<and> hd acc \<in> set (str ''.!?'')
      then rev acc # split_sentences [] (dropWhile is_space cs)
      else split_sentences (c # acc) cs)"
  by pat_completeness auto
termination
  by (relation "measure (\<lambda>(acc, s). length s)")
     (auto simp: less_Suc_eq_le length_dropWhile_le)

definition tokenizeSentences :: "ustring \<Rightarrow> ustring list" where
  "tokenizeSentences text =
     (let sentences =
            filter (\<lambda>sentence. length sentence > 0 \<and> length sentence \<le> 300)
              (map trim (split_sentences [] (replace_runs (\<lambda>c. c = LF) 1 (str '' '') text)))
      in array_from_set sentences)"

text \<open>The loop over \<^verbatim>\<open>SUMMARY_KEYWORDS\<close> in \<^verbatim>\<open>scoreSentence\<close>.\<close>

definition keywordScore :: "ustring \<Rightarrow> rat" where
  "keywordScore lower =
     foldl (\<lambda>score keyword. if str_includes lower keyword then score + 2 else score)
       0 SUMMARY_KEYWORDS"

definition scoreSentence :: "ustring \<Rightarrow> rat" where
  "scoreSentence sentence =
     (let lower = toLowerCase sentence;
          score = keywordScore lower;
          lengthScore = min (of_nat (length sentence) / 10) 10;
          score = score + lengthScore;
          score = (if list_ex (\<lambda>c. c \<in> set (Bullet # str ''*-'')) sentence
                   then score + 1 else score);
          score = (if Ch (CHR ''%'') \<in> set sentence \<or> list_ex is_digit sentence
                   then score + 1 else score)
      in score)"

definition buildSummary :: "ustring list \<Rightarrow> ustring list" where
  "buildSummary sentences =
     (if sentences = [] then []
      else let scored = sort_by (\<lambda>a b. snd b - snd a)
                          (map (\<lambda>sentence. (sentence, scoreSentence sentence)) sentences);
               topSentences = map fst (take 4 scored)
           in if topSentences = [] then take 3 sentences else topSentences)"

text \<open>
  The steps of \<^verbatim>\<open>parseResumeText\<close> on the profile link, named after its variables:
  the first match without its trailing punctuation, the same without scheme and
  \<^verbatim>\<open>www.\<close>, and the first capture group of the match on the rest.
\<close>

definition rawGithubUrl :: "ustring \<Rightarrow> ustring option" where
  "rawGithubUrl cleaned =
     (let githubMatches = (case match_g True GITHUB_REGEX cleaned of None \<Rightarrow> [] | Some ms \<Rightarrow> ms);
          firstMatch = (if length githubMatches > 0 then Some (hd githubMatches) else None)
      in case firstMatch of
           None \<Rightarrow> None
         | Some fm \<Rightarrow> if fm = [] then None else Some (replace_first False TRAILING_REGEX [] fm))"

definition stripHost :: "ustring \<Rightarrow> ustring" where
  "stripHost url = replace_first False WWW_REGEX [] (replace_first False SCHEME_REGEX [] url)"

definition usernameOf :: "ustring option \<Rightarrow> ustring option" where
  "usernameOf raw =
     (case raw of
        None \<Rightarrow> None
      | Some url \<Rightarrow>
          if url = [] then None
          else case search True USERNAME_REGEX True (stripHost url) of
                 None \<Rightarrow> None
               | Some (i, m, g) \<Rightarrow> g (1::nat))"

text \<open>\<^verbatim>\<open>phone.replace(/\s+/g, " ").trim()\<close>\<close>

definition normalizePhone :: "ustring \<Rightarrow> ustring" where
  "normalizePhone phone = trim (replace_runs is_space 1 (str '' '') phone)"

text \<open>\<^verbatim>\<open>phone.replace(/\D/g, "").length\<close>\<close>

definition digitCount :: "ustring \<Rightarrow> nat" where
  "digitCount phone = length (filter is_digit phone)"

definition parseResumeText :: "ustring \<Rightarrow> error + ParsedResume" where
  "parseResumeText text =
     (let cleaned = cleanText text;
          lines = split_on (\<lambda>c. c = LF) cleaned;
          nm = extractName lines;
          hl = extractHeadline lines nm;
          ems = map toLowerCase
                  (array_from_set
                     (case match_g True EMAIL_REGEX cleaned of None \<Rightarrow> [] | Some ms \<Rightarrow> ms));
          phs = (case match_g False PHONE_REGEX cleaned of
                   None \<Rightarrow> []
                 | Some ms \<Rightarrow> filter (\<lambda>phone. digitCount phone \<ge> 10) (map normalizePhone ms));
          raw = rawGithubUrl cleaned;
          username = usernameOf raw;
          url = (case username of
                   Some u \<Rightarrow> Some (str ''https://github.com/'' @ u)
                 | None \<Rightarrow> raw)
      in case extractSkills cleaned of
           Inl e \<Rightarrow> Inl e
         | Inr sk \<Rightarrow>
             Inr \<lparr> name = nm, headline = hl, githubUrl = url, githubUsername = username,
                   emails = ems, phones = phs, skills = sk,
                   summary = buildSummary (tokenizeSentences cleaned), rawText = cleaned \<rparr>)"

subsection \<open>Notions used in the statements\<close>

text \<open>No three line feeds in a row.\<close>

definition no3 :: "ustring \<Rightarrow> bool" where
  "no3 y = (\<not> sublist [LF, LF, LF] y)"

text \<open>Equal up to case, as the \<^verbatim>\<open>i\<close> flag compares.\<close>

definition eq_ci :: "ustring \<Rightarrow> ustring \<Rightarrow> bool" where
  "eq_ci x y = (map (canon True) x = map (canon True) y)"

text \<open>A character that is no letter: the \<^verbatim>\<open>i\<close> flag matches it with itself only.\<close>

fun caseless :: "cunit \<Rightarrow> bool" where
  "caseless (Ch a) =
     (let n = (of_char a :: nat)
      in \<not> (65 \<le> n \<and> n \<le> 90) \<and> \<not> (97 \<le> n \<and> n \<le> 122) \<and> \<not> (192 \<le> n \<and> n \<le> 254))"
| "caseless Bullet = True"

text \<open>
  A skills section in a text: a header of the label set in any case, white space, the
  colon, at most one space, a body that is not empty, and a rest that starts with one of
  the stops, the blank line or a keyword in any case.
\<close>

definition ci_prefix :: "ustring \<Rightarrow> ustring \<Rightarrow> bool" where
  "ci_prefix l t = (length l \<le> length t \<and> eq_ci (take (length l) t) l)"

definition stop_at :: "ustring \<Rightarrow> bool" where
  "stop_at t = (\<exists>l\<in>set SKILLS_STOPS. ci_prefix l t)"

definition skills_section ::
  "ustring \<Rightarrow> ustring \<Rightarrow> ustring \<Rightarrow> ustring \<Rightarrow> ustring \<Rightarrow> ustring \<Rightarrow> ustring \<Rightarrow> bool" where
  "skills_section text pre h w sp body rest =
     (text = pre @ h @ w @ str '':'' @ sp @ body @ rest \<and>
      (\<exists>l\<in>set SKILLS_LABELS. eq_ci h l) \<and>
      (\<forall>c\<in>set w. is_space c) \<and>
      (sp = [] \<or> sp = str '' '') \<and>
      body \<noteq> [] \<and>
      stop_at rest)"

text \<open>
  The skills section the pattern finds: the leftmost one; with the space after the colon
  outside the body when there is a section that way; and with the shortest body, no
  stop starting inside it after its first character.
\<close>

definition first_skills_section ::
  "ustring \<Rightarrow> ustring \<Rightarrow> ustring \<Rightarrow> ustring \<Rightarrow> ustring \<Rightarrow> ustring \<Rightarrow> ustring \<Rightarrow> bool" where
  "first_skills_section text pre h w sp body rest =
     (skills_section text pre h w sp body rest \<and>
      (\<forall>pre' h' w' sp' body' rest'.
          skills_section text pre' h' w' sp' body' rest' \<longrightarrow> length pre \<le> length pre') \<and>
      (sp = [] \<longrightarrow> (\<forall>body' rest'. \<not> skills_section text pre h w (str '' '') body' rest')) \<and>
      (\<forall>j\<in>set [1 ..< length body]. \<not> stop_at (drop j (body @ rest))))"

text \<open>The characters of \<^verbatim>\<open>[^\/\s]\<close>, of which a path segment is made.\<close>

definition segment_char :: "cunit \<Rightarrow> bool" where
  "segment_char c = (c \<noteq> Ch (CHR ''/'') \<and> \<not> is_space c)"

text \<open>
  A phone string after \<^verbatim>\<open>normalizePhone\<close>: its only white space is the space
  character, never two in a row, and none at either end.
\<close>

definition ws_normalized :: "ustring \<Rightarrow> bool" where
  "ws_normalized p =
     ((\<forall>c\<in>set p. is_space c \<longrightarrow> c = Ch (CHR '' '')) \<and> \<not> sublist [Ch (CHR '' ''), Ch (CHR '' '')] p \<and>
      (p = [] \<or> (\<not> is_space (hd p) \<and> \<not> is_space (last p))))"

text \<open>
  The line \<^verbatim>\<open>extractName\<close> accepts: its trimmed content is not empty, has at most 60
  characters, no digit and not the phrase, and at most four space characters, which is
  at most five pieces of \<^verbatim>\<open>split(" ")\<close>.
\<close>

definition name_line :: "ustring \<Rightarrow> bool" where
  "name_line line =
     (let t = trim line
      in t \<noteq> [] \<and> length t \<le> 60 \<and> \<not> list_ex is_digit t \<and>
         \<not> sublist (str ''curriculum vitae'') (toLowerCase t) \<and>
         length (filter (\<lambda>c. c = Ch (CHR '' '')) t) \<le> 4)"

text \<open>
  The same condition as the specification words it: at most five words separated by
  white space. A word is a maximal run of characters that are not white space.
\<close>

definition spec_words :: "ustring \<Rightarrow> ustring list" where
  "spec_words s = filter (\<lambda>w. w \<noteq> []) (split_on is_space s)"

definition spec_name_line :: "ustring \<Rightarrow> bool" where
  "spec_name_line line =
     (let t = trim line
      in t \<noteq> [] \<and> length t \<le> 60 \<and> \<not> list_ex is_digit t \<and>
         \<not> sublist (str ''curriculum vitae'') (toLowerCase t) \<and> length (spec_words t) \<le> 5)"

text \<open>
  The keyword points as the specification words them: two for each occurrence of each
  keyword. An occurrence is a position at which the keyword starts.
\<close>

fun occurrences :: "ustring \<Rightarrow> ustring \<Rightarrow> nat" where
  "occurrences w [] = (if w = [] then 1 else 0)"
| "occurrences w (c # cs) = (if take (length w) (c # cs) = w then 1 else 0) + occurrences w cs"

definition spec_keywordScore :: "ustring \<Rightarrow> rat" where
  "spec_keywordScore lower =
     (\<Sum>keyword\<leftarrow>SUMMARY_KEYWORDS. 2 * of_nat (occurrences keyword lower))"

section \<open>Properties\<close>

subsection \<open>Case mapping on the bits of a character\<close>

text \<open>
  The two case mappings, computed on the eight bits of the code unit. These equations
  are the ones evaluation uses.
\<close>

lemma toUpperLatin1_bits:
  "\<forall>b0 b1 b2 b3 b4 b5 b6 b7. toUpperLatin1 (Char b0 b1 b2 b3 b4 b5 b6 b7) =
     (if b5 \<and> b6 \<and>
         ((\<not> b7 \<and> (b0 \<or> b1 \<or> b2 \<or> b3 \<or> b4) \<and> \<not> (b4 \<and> b3 \<and> (b2 \<or> (b1 \<and> b0)))) \<or>
          (b7 \<and> \<not> (b0 \<and> b1 \<and> b2 \<and> \<not> b3 \<and> b4) \<and> \<not> (b0 \<and> b1 \<and> b2 \<and> b3 \<and> b4)))
      then Char b0 b1 b2 b3 b4 False b6 b7 else Char b0 b1 b2 b3 b4 b5 b6 b7)"
  by code_simp

lemma toUpperLatin1_code [code]:
  "toUpperLatin1 (Char b0 b1 b2 b3 b4 b5 b6 b7) =
     (if b5 \<and> b6 \<and>
         ((\<not> b7 \<and> (b0 \<or> b1 \<or> b2 \<or> b3 \<or> b4) \<and> \<not> (b4 \<and> b3 \<and> (b2 \<or> (b1 \<and> b0)))) \<or>
          (b7 \<and> \<not> (b0 \<and> b1 \<and> b2 \<and> \<not> b3 \<and> b4) \<and> \<not> (b0 \<and> b1 \<and> b2 \<and> b3 \<and> b4)))
      then Char b0 b1 b2 b3 b4 False b6 b7 else Char b0 b1 b2 b3 b4 b5 b6 b7)"
  using toUpperLatin1_bits by blast

lemma toLowerLatin1_bits:
  "\<forall>b0 b1 b2 b3 b4 b5 b6 b7. toLowerLatin1 (Char b0 b1 b2 b3 b4 b5 b6 b7) =
     (if \<not> b5 \<and> b6 \<and>
         ((\<not> b7 \<and> (b0 \<or> b1 \<or> b2 \<or> b3 \<or> b4) \<and> \<not> (b4 \<and> b3 \<and> (b2 \<or> (b1 \<and> b0)))) \<or>
          (b7 \<and> \<not> (b0 \<and> b1 \<and> b2 \<and> \<not> b3 \<and> b4) \<and> \<not> (b0 \<and> b1 \<and> b2 \<and> b3 \<and> b4)))
      then Char b0 b1 b2 b3 b4 True b6 b7 else Char b0 b1 b2 b3 b4 b5 b6 b7)"
  by code_simp

lemma toLowerLatin1_code [code]:
  "toLowerLatin1 (Char b0 b1 b2 b3 b4 b5 b6 b7) =
     (if \<not> b5 \<and> b6 \<and>
         ((\<not> b7 \<and> (b0 \<or> b1 \<or> b2 \<or> b3 \<or> b4) \<and> \<not> (b4 \<and> b3 \<and> (b2 \<or> (b1 \<and> b0)))) \<or>
          (b7 \<and> \<not> (b0 \<and> b1 \<and> b2 \<and> \<not> b3 \<and> b4) \<and> \<not> (b0 \<and> b1 \<and> b2 \<and> b3 \<and> b4)))
      then Char b0 b1 b2 b3 b4 True b6 b7 else Char b0 b1 b2 b3 b4 b5 b6 b7)"
  using toLowerLatin1_bits by blast

subsection \<open>Characters the case folding leaves alone\<close>

lemma toUpperLatin1_range:
  assumes "toUpperLatin1 c \<noteq> c"
  shows "(65 \<le> (of_char (toUpperLatin1 c) :: nat) \<and> (of_char (toUpperLatin1 c) :: nat) \<le> 90) \<or>
         (192 \<le> (of_char (toUpperLatin1 c) :: nat) \<and> (of_char (toUpperLatin1 c) :: nat) \<le> 222)"
proof -
  let ?n = "of_char c :: nat"
  have r: "(97 \<le> ?n \<and> ?n \<le> 122) \<or> (224 \<le> ?n \<and> ?n \<le> 254 \<and> ?n \<noteq> 247)"
    and u: "toUpperLatin1 c = char_of (?n - 32)"
    using assms by (auto simp: toUpperLatin1_def Let_def split: if_splits)
  have "(of_char (toUpperLatin1 c) :: nat) = (?n - 32) mod 256"
    unfolding u by simp
  also have "\<dots> = ?n - 32"
    using r by auto
  finally show ?thesis
    using r by auto
qed

lemma toUpperChar_caseless:
  assumes "caseless a"
  shows "toUpperChar c = a \<longleftrightarrow> c = a"
proof (cases a)
  case Bullet
  then show ?thesis
    by (cases c) auto
next
  case (Ch x)
  have a: "toUpperLatin1 x = x"
    using assms Ch by (auto simp: toUpperLatin1_def Let_def)
  have "y = x" if t: "toUpperLatin1 y = x" for y
  proof (rule ccontr)
    assume "y \<noteq> x"
    then have "toUpperLatin1 y \<noteq> y"
      using t by simp
    from toUpperLatin1_range[OF this] show False
      using assms Ch unfolding t by (simp add: Let_def) linarith
  qed
  then show ?thesis
    using a Ch by (cases c) auto
qed

lemma canon_caseless:
  assumes "caseless a"
  shows "canon ic c = canon ic a \<longleftrightarrow> c = a"
  using toUpperChar_caseless[OF assms, of c] toUpperChar_caseless[OF assms, of a]
  by (auto simp: canon_def)

lemma in_class_caseless:
  assumes "\<forall>a\<in>set A. caseless a"
  shows "in_class ic (Pos A) c = (c \<in> set A)" "in_class ic (Neg A) c = (c \<notin> set A)"
  using assms canon_caseless[of _ ic c] by (auto simp: image_iff)

lemma caseless_space_chars: "\<forall>a\<in>set space_chars. caseless a"
  by (simp add: space_chars_def)

lemma in_class_space: "in_class ic (Pos space_chars) c = is_space c"
  using in_class_caseless(1)[OF caseless_space_chars, of ic c]
  by (simp add: is_space_def del: in_class.simps)

lemma in_class_segment: "in_class ic (Neg (str ''/'' @ space_chars)) c = segment_char c"
proof -
  have "\<forall>a\<in>set (str ''/'' @ space_chars). caseless a"
    by (simp add: space_chars_def)
  from in_class_caseless(2)[OF this, of ic c] show ?thesis
    by (simp add: segment_char_def is_space_def del: in_class.simps)
qed

lemma map_canon_caseless:
  assumes "map (canon ic) x = map (canon ic) w" "\<forall>a\<in>set w. caseless a"
  shows "x = w"
  using assms
proof (induction w arbitrary: x)
  case Nil
  then show ?case by simp
next
  case (Cons a w)
  then obtain c x' where x: "x = c # x'"
    by (cases x) auto
  then show ?case
    using Cons canon_caseless[of a ic c] by auto
qed

subsection \<open>Trimming\<close>

lemma sublist_trim: "sublist (trim y) y"
proof -
  have "suffix (dropWhile is_space y) y"
    by (rule suffix_dropWhile)
  moreover have "prefix (trim y) (dropWhile is_space y)"
    unfolding trim_def by (metis suffix_dropWhile suffix_to_prefix rev_rev_ident)
  ultimately show ?thesis
    by (meson prefix_imp_sublist suffix_imp_sublist sublist_order.order_trans)
qed

lemma set_trim: "set (trim y) \<subseteq> set y"
  using sublist_trim set_mono_sublist by blast

lemma trim_ends:
  "trim y = [] \<or> (\<not> is_space (hd (trim y)) \<and> \<not> is_space (last (trim y)))"
proof (cases "dropWhile is_space y = []")
  case True
  have "trim y = []" unfolding trim_def True by simp
  then show ?thesis by simp
next
  case False
  let ?d = "dropWhile is_space y"
  let ?r = "dropWhile is_space (rev ?d)"
  have h: "\<not> is_space (hd ?d)"
    using False hd_dropWhile by blast
  have "last (rev ?d) = hd ?d"
    using False by (simp add: last_rev)
  then have "\<exists>x\<in>set (rev ?d). \<not> is_space x"
    using h False by (metis last_in_set rev_is_Nil_conv)
  then have rne: "?r \<noteq> []"
    by (simp add: dropWhile_eq_Nil_conv)
  have r1: "\<not> is_space (hd ?r)"
    using rne hd_dropWhile by blast
  have "suffix ?r (rev ?d)"
    by (rule suffix_dropWhile)
  then have "last ?r = last (rev ?d)"
    using rne by (metis last_appendR suffix_def)
  then have r2: "\<not> is_space (last ?r)"
    using h False by (simp add: last_rev)
  have "trim y = rev ?r"
    by (simp add: trim_def)
  then show ?thesis
    using r1 r2 rne by (simp add: hd_rev last_rev)
qed

lemma trim_fix:
  assumes "y = [] \<or> (\<not> is_space (hd y) \<and> \<not> is_space (last y))"
  shows "trim y = y"
proof (cases "y = []")
  case True
  then show ?thesis by (simp add: trim_def)
next
  case False
  then have a: "\<not> is_space (hd y)" and b: "\<not> is_space (last y)"
    using assms by auto
  have "dropWhile is_space y = y"
    using a False by (cases y) auto
  moreover have "dropWhile is_space (rev y) = rev y"
    using b False by (cases "rev y") (auto simp: last_rev hd_rev[symmetric])
  ultimately show ?thesis
    by (simp add: trim_def)
qed

lemma trim_idem: "trim (trim y) = trim y"
  using trim_ends trim_fix by blast

subsection \<open>Replacing runs\<close>

lemma set_replace_runs: "set (replace_runs P m rep s) \<subseteq> set rep \<union> set s"
proof (induction P m rep s rule: replace_runs.induct)
  case (1 P m rep)
  then show ?case by simp
next
  case (2 P m rep c cs)
  show ?case
  proof (cases "P c \<and> m \<le> length (takeWhile P (c # cs))")
    case True
    then show ?thesis
      using 2(1) set_dropWhileD[of _ P cs] by auto
  next
    case False
    then show ?thesis
      using 2(2) by auto
  qed
qed

lemma replace_runs_Nil_iff: "rep \<noteq> [] \<Longrightarrow> replace_runs P m rep z = [] \<longleftrightarrow> z = []"
  by (cases z) auto

lemma replace_runs_hd:
  "z \<noteq> [] \<Longrightarrow> \<not> P (hd z) \<Longrightarrow> hd (replace_runs P m rep z) = hd z"
  by (cases z) auto

subsection \<open>Normalised text\<close>

lemma no3_Cons1: "c \<noteq> LF \<or> w = [] \<or> hd w \<noteq> LF \<Longrightarrow> no3 w \<Longrightarrow> no3 (c # w)"
  by (cases w) (auto simp: no3_def sublist_Cons_right)

lemma no3_Cons2: "w = [] \<or> hd w \<noteq> LF \<Longrightarrow> no3 w \<Longrightarrow> no3 (LF # LF # w)"
  by (cases w) (auto simp: no3_def sublist_Cons_right)

lemma squeeze_hd:
  "z = [] \<or> hd z \<noteq> LF \<Longrightarrow>
   replace_runs (\<lambda>c. c = LF) 2 [LF, LF] z = [] \<or> hd (replace_runs (\<lambda>c. c = LF) 2 [LF, LF] z) \<noteq> LF"
  using replace_runs_Nil_iff[of "[LF, LF]" "\<lambda>c. c = LF" 2 z]
    replace_runs_hd[of z "\<lambda>c. c = LF" 2 "[LF, LF]"]
  by auto

lemma no3_squeeze: "no3 (replace_runs (\<lambda>c. c = LF) 2 [LF, LF] x)"
proof (induction "\<lambda>c. c = LF" "2::nat" "[LF, LF]" x rule: replace_runs.induct)
  case 1
  then show ?case by (simp add: no3_def)
next
  case (2 c cs)
  let ?sq = "replace_runs (\<lambda>c. c = LF) 2 [LF, LF]"
  show ?case
  proof (cases "c = LF \<and> 2 \<le> length (takeWhile (\<lambda>c. c = LF) (c # cs))")
    case True
    let ?z = "dropWhile (\<lambda>c. c = LF) cs"
    have ih: "no3 (?sq ?z)"
      using 2(1)[OF True] .
    have "?z = [] \<or> hd ?z \<noteq> LF"
      using hd_dropWhile[of "\<lambda>c. c = LF" cs] by blast
    then have nz: "?sq ?z = [] \<or> hd (?sq ?z) \<noteq> LF"
      by (rule squeeze_hd)
    have eq: "?sq (c # cs) = LF # LF # ?sq ?z"
      using True by (auto split: if_splits)
    show ?thesis
      unfolding eq using nz ih by (rule no3_Cons2)
  next
    case False
    have ih: "no3 (?sq cs)"
      using 2(2)[OF False] .
    have eq: "?sq (c # cs) = c # ?sq cs"
      using False by auto
    have "c \<noteq> LF \<or> cs = [] \<or> hd cs \<noteq> LF"
      using False by (cases cs) auto
    then have "c \<noteq> LF \<or> ?sq cs = [] \<or> hd (?sq cs) \<noteq> LF"
      using squeeze_hd[of cs] by blast
    then show ?thesis
      unfolding eq using ih by (rule no3_Cons1)
  qed
qed

lemma squeeze_fix: "no3 y \<Longrightarrow> replace_runs (\<lambda>c. c = LF) 2 [LF, LF] y = y"
proof (induction "\<lambda>c. c = LF" "2::nat" "[LF, LF]" y rule: replace_runs.induct)
  case 1
  then show ?case by simp
next
  case (2 c cs)
  let ?sq = "replace_runs (\<lambda>c. c = LF) 2 [LF, LF]"
  have n3: "no3 (c # cs)"
    by fact
  then have n3cs: "no3 cs"
    by (auto simp: no3_def sublist_Cons_right)
  show ?case
  proof (cases "c = LF \<and> 2 \<le> length (takeWhile (\<lambda>c. c = LF) (c # cs))")
    case True
    then obtain cs' where cs: "cs = LF # cs'"
      by (cases cs) (auto split: if_splits)
    have h: "cs' = [] \<or> hd cs' \<noteq> LF"
      using n3 True cs by (cases cs') (auto simp: no3_def sublist_Cons_right)
    then have dw: "dropWhile (\<lambda>c. c = LF) cs = cs'"
      using cs by (cases cs') auto
    have "no3 cs'"
      using n3cs cs by (auto simp: no3_def sublist_Cons_right)
    then have "?sq cs' = cs'"
      using 2(1)[OF True] dw by simp
    then show ?thesis
      using True cs dw by (auto split: if_splits)
  next
    case False
    then have "?sq cs = cs"
      using 2(2)[OF False] n3cs by simp
    then show ?thesis
      using False by auto
  qed
qed

lemma cleanText_no_CR: "CR \<notin> set (cleanText s)"
proof -
  have "CR \<notin> set (map (\<lambda>c. if c = CR then LF else c) s)"
    by (auto simp: CR_def LF_def)
  moreover have "CR \<noteq> LF"
    by (simp add: CR_def LF_def)
  ultimately have
    "CR \<notin> set (replace_runs (\<lambda>c. c = LF) 2 [LF, LF] (map (\<lambda>c. if c = CR then LF else c) s))"
    using set_replace_runs[of "\<lambda>c. c = LF" 2 "[LF, LF]"] by fastforce
  then show ?thesis
    unfolding cleanText_def using set_trim by blast
qed

lemma cleanText_no3: "no3 (cleanText s)"
  unfolding cleanText_def using no3_squeeze sublist_trim unfolding no3_def
  by (meson sublist_order.order_trans)

subsection \<open>White space of a normalised phone string\<close>

lemma replace_runs_one_set:
  "set (replace_runs P 1 rep s) \<subseteq> set rep \<union> {c \<in> set s. \<not> P c}"
proof (induction s rule: length_induct)
  case (1 s)
  show ?case
  proof (cases s)
    case Nil
    then show ?thesis by simp
  next
    case (Cons c cs)
    show ?thesis
    proof (cases "P c")
      case True
      have "length (dropWhile P cs) < length s"
        using Cons length_dropWhile_le[of P cs] by simp
      then have "set (replace_runs P 1 rep (dropWhile P cs))
                   \<subseteq> set rep \<union> {c \<in> set (dropWhile P cs). \<not> P c}"
        using 1 by blast
      moreover have "set (dropWhile P cs) \<subseteq> set cs"
        using set_dropWhileD by fastforce
      ultimately show ?thesis
        using Cons True by auto
    next
      case False
      have "set (replace_runs P 1 rep cs) \<subseteq> set rep \<union> {c \<in> set cs. \<not> P c}"
        using 1 Cons by simp
      then show ?thesis
        using Cons False by auto
    qed
  qed
qed

lemma no_pair_Cons:
  "w = [] \<or> hd w \<noteq> x \<or> c \<noteq> x \<Longrightarrow> \<not> sublist [x, x] w \<Longrightarrow> \<not> sublist [x, x] (c # w)"
  by (cases w) (auto simp: sublist_Cons_right)

lemma replace_runs_no_pair:
  assumes "P x"
  shows "\<not> sublist [x, x] (replace_runs P 1 [x] s)"
proof (induction s rule: length_induct)
  case (1 s)
  show ?case
  proof (cases s)
    case Nil
    then show ?thesis by simp
  next
    case (Cons c cs)
    show ?thesis
    proof (cases "P c")
      case True
      let ?z = "dropWhile P cs"
      have "length ?z < length s"
        using Cons length_dropWhile_le[of P cs] by simp
      then have ih: "\<not> sublist [x, x] (replace_runs P 1 [x] ?z)"
        using 1 by blast
      have "?z = [] \<or> \<not> P (hd ?z)"
        using hd_dropWhile[of P cs] by blast
      then have "replace_runs P 1 [x] ?z = [] \<or> hd (replace_runs P 1 [x] ?z) \<noteq> x"
        using replace_runs_Nil_iff[of "[x]" P 1 ?z] replace_runs_hd[of ?z P 1 "[x]"] assms
        by (metis not_Cons_self2)
      then have "\<not> sublist [x, x] (x # replace_runs P 1 [x] ?z)"
        using ih by (intro no_pair_Cons) auto
      then show ?thesis
        using Cons True by simp
    next
      case False
      have ih: "\<not> sublist [x, x] (replace_runs P 1 [x] cs)"
        using 1 Cons by simp
      have "c \<noteq> x"
        using False assms by auto
      then have "\<not> sublist [x, x] (c # replace_runs P 1 [x] cs)"
        using ih by (intro no_pair_Cons) auto
      then show ?thesis
        using Cons False by simp
    qed
  qed
qed

lemma ws_normalized_normalizePhone: "ws_normalized (normalizePhone phone)"
proof -
  let ?q = "replace_runs is_space 1 (str '' '') phone"
  have sp: "is_space (Ch (CHR '' ''))"
    by (simp add: is_space_def space_chars_def)
  have "\<forall>c\<in>set ?q. is_space c \<longrightarrow> c = Ch (CHR '' '')"
    using replace_runs_one_set[of is_space "str '' ''" phone] by auto
  then have 1: "\<forall>c\<in>set (trim ?q). is_space c \<longrightarrow> c = Ch (CHR '' '')"
    using set_trim[of ?q] by blast
  have "\<not> sublist [Ch (CHR '' ''), Ch (CHR '' '')] ?q"
    using replace_runs_no_pair[of is_space "Ch (CHR '' '')" phone, OF sp] by simp
  then have 2: "\<not> sublist [Ch (CHR '' ''), Ch (CHR '' '')] (trim ?q)"
    using sublist_trim[of ?q] by (meson sublist_order.order_trans)
  show ?thesis
    unfolding ws_normalized_def normalizePhone_def using 1 2 trim_ends[of ?q] by blast
qed

subsection \<open>Containment, splitting and the keyword loop\<close>

lemma take_eq_prefix: "take (length w) s = w \<longleftrightarrow> prefix w s"
  by (metis append_eq_conv_conj prefix_def take_is_prefix)

lemma str_includes_sublist: "str_includes s w \<longleftrightarrow> sublist w s"
  by (induction s) (auto simp: sublist_Cons_right take_eq_prefix simp del: take_Suc_Cons)

lemma length_split_acc: "length (split_acc P acc s) = Suc (length (filter P s))"
  by (induction s arbitrary: acc) auto

lemma length_split_on: "length (split_on P s) = Suc (length (filter P s))"
  by (simp add: split_on_def length_split_acc)

lemma foldl_points:
  "foldl (\<lambda>score k. if P k then score + 2 else score) (a::rat) ks
     = a + 2 * of_nat (length (filter P ks))"
  by (induction ks arbitrary: a) auto

lemma distinct_keywords: "distinct SUMMARY_KEYWORDS"
  by (simp add: SUMMARY_KEYWORDS_def)

subsection \<open>The sort of the summary\<close>

lemma insert_by_insort:
  "insert_by (\<lambda>a b. snd b - snd a) x ys = insort_key (\<lambda>p. - snd p) x ys"
  by (induction ys) auto

lemma sort_by_sort_key: "sort_by (\<lambda>a b. snd b - snd a) xs = sort_key (\<lambda>p. - snd p) xs"
  by (induction xs) (auto simp: sort_by_def insert_by_insort sort_key_def)

lemma insort_key_map:
  "insort_key k (g x) (map g ys) = map g (insort_key (\<lambda>y. k (g y)) x ys)"
  by (induction ys) auto

lemma sort_key_map: "sort_key k (map g xs) = map g (sort_key (\<lambda>y. k (g y)) xs)"
  by (induction xs) (auto simp: insort_key_map)

lemma ranked_eq:
  "map fst (sort_by (\<lambda>a b. snd b - snd a) (map (\<lambda>s. (s, f s)) xs)) = sort_key (\<lambda>s. - f s) xs"
  by (simp add: sort_by_sort_key sort_key_map comp_def)

lemma buildSummary_eq:
  "buildSummary sentences = take 4 (sort_key (\<lambda>s. - scoreSentence s) sentences)"
proof (cases "sentences = []")
  case True
  then show ?thesis by (simp add: buildSummary_def)
next
  case False
  then have "sort_by (\<lambda>a b. snd b - snd a)
               (map (\<lambda>sentence. (sentence, scoreSentence sentence)) sentences) \<noteq> []"
    by (metis (no_types) sort_by_sort_key length_sort length_map length_0_conv)
  then show ?thesis
    using False by (simp add: buildSummary_def Let_def take_map[symmetric] ranked_eq)
qed

lemma summary_length: "parseResumeText s = Inr r \<Longrightarrow> length (summary r) \<le> 4"
  by (auto simp: parseResumeText_def Let_def buildSummary_eq split: sum.splits)

subsection \<open>The matcher\<close>

lemma Lit_D:
  assumes "(b', s', g') \<in> set (rmatch ic (Lit w) (b, s, g))"
  shows "\<exists>x. s = x @ s' \<and> map (canon ic) x = map (canon ic) w \<and> g' = g"
proof -
  from assms have a: "length w \<le> length s"
    and e: "map (canon ic) (take (length w) s) = map (canon ic) w"
    and r: "s' = drop (length w) s" "g' = g"
    by (auto simp: advance_def split: if_splits)
  have "s = take (length w) s @ s'"
    using r by simp
  then show ?thesis
    using e r by blast
qed

lemma run_len_class:
  assumes "k \<le> run_len ic A mx s"
  shows "k \<le> length s \<and> (\<forall>c\<in>set (take k s). in_class ic A c)"
proof -
  let ?t = "takeWhile (in_class ic A) s"
  have k: "k \<le> length ?t"
    using assms by (auto simp: run_len_def Let_def split: option.splits)
  then have "take k s = take k ?t"
    by (metis takeWhile_dropWhile_id take_append diff_is_0_eq take_0 append_Nil2)
  moreover have "\<forall>c\<in>set ?t. in_class ic A c"
    using set_takeWhileD by fastforce
  ultimately have "\<forall>c\<in>set (take k s). in_class ic A c"
    using in_set_takeD by metis
  moreover have "length ?t \<le> length s"
    by (rule length_takeWhile_le)
  ultimately show ?thesis
    using k by linarith
qed

lemma Rep_D:
  assumes "(b', s', g') \<in> set (rmatch ic (Rep A m mx) (b, s, g))"
  shows "\<exists>x. s = x @ s' \<and> m \<le> length x \<and> (\<forall>c\<in>set x. in_class ic A c) \<and> g' = g"
proof -
  from assms obtain k where k: "m \<le> k" "k \<le> run_len ic A mx s"
    and "(b', s', g') = advance (b, s, g) k"
    by (auto simp: less_Suc_eq_le)
  then have r: "s' = drop k s" "g' = g"
    by (auto simp: advance_def)
  have "s = take k s @ s'" "length (take k s) = k"
    using r run_len_class[OF k(2)] by auto
  then show ?thesis
    using k r run_len_class[OF k(2)] by metis
qed

lemma Opt_D:
  assumes "st' \<in> set (rmatch ic (Opt r) st)"
  shows "st' \<in> set (rmatch ic r st) \<or> st' = st"
  using assms by auto

lemma Grp_D:
  assumes "(b', s', g') \<in> set (rmatch ic (Grp i r) (b, s, g))"
  shows "\<exists>g0. (b', s', g0) \<in> set (rmatch ic r (b, s, g)) \<and>
                g' = g0(i \<mapsto> take (length s - length s') s)"
  using assms by auto

lemma alts_set:
  "rs \<noteq> [] \<Longrightarrow> set (rmatch ic (alts rs) st) = (\<Union>r\<in>set rs. set (rmatch ic r st))"
proof (induction rs rule: list_nonempty_induct)
  case (single r)
  then show ?case by (simp add: alts_def)
next
  case (cons r rs)
  then have "alts (r # rs) = Alt r (alts rs)"
    by (simp add: alts_def)
  then show ?case
    using cons by simp
qed

lemma alts_Lit_D:
  assumes "(b', s', g') \<in> set (rmatch ic (alts (map Lit ws)) (b, s, g))" "ws \<noteq> []"
  shows "\<exists>x. s = x @ s' \<and> (\<exists>w\<in>set ws. map (canon ic) x = map (canon ic) w) \<and> g' = g"
proof -
  from assms obtain w where w: "w \<in> set ws" "(b', s', g') \<in> set (rmatch ic (Lit w) (b, s, g))"
    using alts_set[of "map Lit ws" ic "(b, s, g)"] by auto
  from Lit_D[OF w(2)] show ?thesis
    using w(1) by blast
qed

lemma exec_at_hd:
  assumes "exec_at ic r b s = Some (m, g)"
  shows "\<exists>b' s' rest. rmatch ic r (b, s, Map.empty) = (b', s', g) # rest \<and>
                  m = take (length s - length s') s"
  using assms by (auto simp: exec_at_def split: list.splits)

lemma search_hd:
  assumes "search ic r b s = Some (i, m, g)"
  shows "\<exists>b' s' rest. i \<le> length s \<and>
           rmatch ic r (b \<and> i = 0, drop i s, Map.empty) = (b', s', g) # rest \<and>
           m = take (length (drop i s) - length s') (drop i s)"
  using assms
proof (induction s arbitrary: b i)
  case Nil
  then have "exec_at ic r b [] = Some (m, g)" "i = 0"
    by auto
  then show ?case
    using exec_at_hd[of ic r b "[]" m g] by auto
next
  case (Cons c cs)
  show ?case
  proof (cases "exec_at ic r b (c # cs)")
    case None
    then obtain j where j: "search ic r False cs = Some (j, m, g)" "i = Suc j"
      using Cons.prems by auto
    from Cons.IH[OF j(1)] show ?thesis
      using j(2) by auto
  next
    case (Some a)
    then have e: "exec_at ic r b (c # cs) = Some (m, g)" "i = 0"
      using Cons.prems by (auto split: prod.splits)
    from exec_at_hd[OF e(1)] show ?thesis
      using e(2) by auto
  qed
qed

lemma anchored_group_rmatch:
  assumes "w \<noteq> []"
  shows "rmatch ic (seqs [Bol, Lit w, Grp i (Rep A 1 None)]) (b, s, g) =
     (if b \<and> length w \<le> length s \<and> map (canon ic) (take (length w) s) = map (canon ic) w
      then map (\<lambda>k. (False, drop (length w + k) s, g(i \<mapsto> take k (drop (length w) s))))
             (rev [1 ..< Suc (length (takeWhile (in_class ic A) (drop (length w) s)))])
      else [])"
  using assms length_takeWhile_le[of "in_class ic A" "drop (length w) s"]
  by (auto simp: seqs_def advance_def run_len_def comp_def add.commute simp del: in_class.simps)

lemma concat_map_Cons_D:
  assumes "concat (map f l) = x # xs"
  shows "\<exists>pre y post ys. l = pre @ y # post \<and> (\<forall>p\<in>set pre. f p = []) \<and> f y = x # ys"
  using assms
proof (induction l)
  case Nil
  then show ?case by simp
next
  case (Cons a l)
  show ?case
  proof (cases "f a")
    case Nil
    then have "concat (map f l) = x # xs"
      using Cons.prems by simp
    from Cons.IH[OF this] obtain pre y post ys where
      "l = pre @ y # post" "\<forall>p\<in>set pre. f p = []" "f y = x # ys"
      by blast
    then have "a # l = (a # pre) @ y # post \<and> (\<forall>p\<in>set (a # pre). f p = []) \<and> f y = x # ys"
      using Nil by simp
    then show ?thesis by blast
  next
    case (Cons z zs)
    then have "f a = x # zs"
      using Cons.prems by simp
    then have "a # l = [] @ a # l \<and> (\<forall>p\<in>set []. f p = []) \<and> f a = x # zs"
      by simp
    then show ?thesis by blast
  qed
qed

lemma Seq_hd:
  assumes "rmatch ic (Seq r1 r2) st = x # xs"
  shows "\<exists>pre y post ys. rmatch ic r1 st = pre @ y # post \<and>
           (\<forall>p\<in>set pre. rmatch ic r2 p = []) \<and> rmatch ic r2 y = x # ys"
  using assms concat_map_Cons_D[of "rmatch ic r2" "rmatch ic r1 st" x xs] by simp

lemma upt_split:
  assumes "[m ..< n] = us @ k # vs"
  shows "us = [m ..< k] \<and> m \<le> k \<and> k < n"
  using assms
proof (induction us arbitrary: m)
  case Nil
  then show ?case
    by (simp add: upt_eq_Cons_conv)
next
  case (Cons u us)
  then have m: "m < n" "u = m" "[Suc m ..< n] = us @ k # vs"
    by (auto simp: upt_eq_Cons_conv)
  from Cons.IH[OF m(3)] have "us = [Suc m ..< k]" "Suc m \<le> k" "k < n"
    by auto
  then show ?case
    using m(2) by (simp add: upt_conv_Cons)
qed

lemma Lit_I:
  assumes "map (canon ic) x = map (canon ic) w"
  shows "(b \<and> w = [], s', g) \<in> set (rmatch ic (Lit w) (b, x @ s', g))"
proof -
  have "length x = length w"
    using assms by (metis length_map)
  then show ?thesis
    using assms by (simp add: advance_def)
qed

lemma Lit_Nil_ne: "rmatch ic (Lit []) st \<noteq> []"
  by (cases st) simp

lemma Seq_ne:
  assumes "st' \<in> set (rmatch ic r1 st)" "rmatch ic r2 st' \<noteq> []"
  shows "rmatch ic (Seq r1 r2) st \<noteq> []"
  using assms by auto

lemma run_len_ge:
  assumes "\<forall>c\<in>set x. in_class ic A c"
  shows "length x \<le> run_len ic A None (x @ s')"
  using assms by (simp add: run_len_def takeWhile_append2 del: in_class.simps)

lemma Rep_I:
  assumes "m \<le> length x" "\<forall>c\<in>set x. in_class ic A c"
  shows "(b \<and> x = [], s', g) \<in> set (rmatch ic (Rep A m None) (b, x @ s', g))"
proof -
  have "advance (b, x @ s', g) (length x) = (b \<and> x = [], s', g)"
    by (simp add: advance_def)
  moreover have "length x \<in> set (rev [m ..< Suc (run_len ic A None (x @ s'))])"
    using assms(1) run_len_ge[OF assms(2), of s'] by (simp add: less_Suc_eq_le del: in_class.simps upt_Suc)
  ultimately show ?thesis
    by (simp only: rmatch.simps) (metis image_eqI set_map)
qed

lemma RepLazy_I:
  assumes "m \<le> length x" "\<forall>c\<in>set x. in_class ic A c"
  shows "(b \<and> x = [], s', g) \<in> set (rmatch ic (RepLazy A m) (b, x @ s', g))"
proof -
  have "advance (b, x @ s', g) (length x) = (b \<and> x = [], s', g)"
    by (simp add: advance_def)
  moreover have "length x \<in> set [m ..< Suc (run_len ic A None (x @ s'))]"
    using assms(1) run_len_ge[OF assms(2), of s'] by (simp add: less_Suc_eq_le del: in_class.simps upt_Suc)
  ultimately show ?thesis
    by (simp only: rmatch.simps) (metis image_eqI set_map)
qed

lemma Grp_I:
  assumes "(b', s', g0) \<in> set (rmatch ic r (b, s, g))"
  shows "(b', s', g0(i \<mapsto> take (length s - length s') s)) \<in> set (rmatch ic (Grp i r) (b, s, g))"
  using assms by (simp only: rmatch.simps set_map) force

lemma search_complete:
  assumes "i \<le> length s" "rmatch ic r (b \<and> i = 0, drop i s, Map.empty) \<noteq> []"
  shows "search ic r b s \<noteq> None"
  using assms
proof (induction s arbitrary: b i)
  case Nil
  then show ?case
    by (auto simp: exec_at_def split: list.splits)
next
  case (Cons c cs)
  show ?case
  proof (cases "exec_at ic r b (c # cs)")
    case None
    then have e: "rmatch ic r (b, c # cs, Map.empty) = []"
      by (auto simp: exec_at_def split: list.splits)
    have "i \<noteq> 0"
    proof
      assume "i = 0"
      then have "rmatch ic r (b, c # cs, Map.empty) \<noteq> []"
        using Cons.prems(2) by (cases b) simp_all
      then show False
        using e by simp
    qed
    then obtain j where j: "i = Suc j"
      by (cases i) auto
    then have "j \<le> length cs" "rmatch ic r (False \<and> j = 0, drop j cs, Map.empty) \<noteq> []"
      using Cons.prems by simp_all
    from Cons.IH[OF this] show ?thesis
      using None by simp
  next
    case (Some a)
    then show ?thesis
      by (auto split: prod.splits)
  qed
qed

lemma search_first:
  assumes "search ic r b s = Some (i, m, g)" "j < i"
  shows "rmatch ic r (b \<and> j = 0, drop j s, Map.empty) = []"
  using assms
proof (induction s arbitrary: b i j)
  case Nil
  then show ?case by auto
next
  case (Cons c cs)
  show ?case
  proof (cases "exec_at ic r b (c # cs)")
    case None
    then have e: "rmatch ic r (b, c # cs, Map.empty) = []"
      by (auto simp: exec_at_def split: list.splits)
    from None obtain i' where i': "search ic r False cs = Some (i', m, g)" "i = Suc i'"
      using Cons.prems(1) by auto
    show ?thesis
    proof (cases j)
      case 0
      then show ?thesis
        using e by simp
    next
      case (Suc j')
      then have "j' < i'"
        using Cons.prems(2) i'(2) by simp
      from Cons.IH[OF i'(1) this] show ?thesis
        using Suc by simp
    qed
  next
    case (Some a)
    then have "i = 0"
      using Cons.prems(1) by (auto split: prod.splits)
    then show ?thesis
      using Cons.prems(2) by simp
  qed
qed

subsection \<open>The skills pattern and the user name pattern\<close>

lemma labels_ne: "map Lit SKILLS_LABELS \<noteq> []" "SKILLS_LABELS \<noteq> []"
  by (simp_all add: SKILLS_LABELS_def)

lemma stops_ne: "map Lit SKILLS_STOPS \<noteq> []" "SKILLS_STOPS \<noteq> []"
  by (simp_all add: SKILLS_STOPS_def)

lemma stops_fail:
  assumes "rmatch True (Seq (alts (map Lit SKILLS_STOPS)) (Lit [])) (b, t, g) = []"
  shows "\<not> stop_at t"
proof
  assume "stop_at t"
  then obtain l where l: "l \<in> set SKILLS_STOPS" "length l \<le> length t"
    "map (canon True) (take (length l) t) = map (canon True) l"
    by (auto simp: stop_at_def ci_prefix_def eq_ci_def)
  have "(b \<and> l = [], drop (length l) t, g) \<in> set (rmatch True (Lit l) (b, take (length l) t @ drop (length l) t, g))"
    using l(3) by (rule Lit_I)
  then have "(b \<and> l = [], drop (length l) t, g) \<in> set (rmatch True (Lit l) (b, t, g))"
    by simp
  then have "(b \<and> l = [], drop (length l) t, g) \<in> set (rmatch True (alts (map Lit SKILLS_STOPS)) (b, t, g))"
    using l(1) alts_set[OF stops_ne(1), of True "(b, t, g)"] by auto
  then have "rmatch True (Seq (alts (map Lit SKILLS_STOPS)) (Lit [])) (b, t, g) \<noteq> []"
    using Lit_Nil_ne by (rule Seq_ne)
  then show False
    using assms by simp
qed

lemma stop_at_I:
  assumes "l \<in> set SKILLS_STOPS" "map (canon True) stop = map (canon True) l"
  shows "stop_at (stop @ s')"
proof -
  have len: "length stop = length l"
    using assms(2) by (metis length_map)
  then have "take (length l) (stop @ s') = stop"
    by simp
  then have "ci_prefix l (stop @ s')"
    using assms(2) len by (simp add: ci_prefix_def eq_ci_def)
  then show ?thesis
    using assms(1) unfolding stop_at_def by blast
qed

lemma stops_succeed:
  assumes "stop_at t"
  shows "rmatch True (Seq (alts (map Lit SKILLS_STOPS)) (Lit [])) (b, t, g) \<noteq> []"
  using assms stops_fail by blast

lemma labels_differ:
  "\<forall>l\<in>set SKILLS_LABELS. \<forall>l0\<in>set SKILLS_LABELS. l \<noteq> l0 \<longrightarrow>
     (\<exists>k\<in>set [0 ..< min (length l) (length l0)]. canon True (l ! k) \<noteq> canon True (l0 ! k))"
  by code_simp

lemma label_at_unique:
  assumes "l \<in> set SKILLS_LABELS" "l0 \<in> set SKILLS_LABELS" "eq_ci h l" "eq_ci h0 l0"
    "h @ x = h0 @ y"
  shows "h = h0"
proof -
  have len: "length h = length l" "length h0 = length l0"
    using assms(3,4) unfolding eq_ci_def by (metis length_map)+
  have "l = l0"
  proof (rule ccontr)
    assume "l \<noteq> l0"
    with labels_differ assms(1,2)
    have "\<exists>k\<in>set [0 ..< min (length l) (length l0)]. canon True (l ! k) \<noteq> canon True (l0 ! k)"
      by blast
    then obtain k where k: "k < length l" "k < length l0"
      "canon True (l ! k) \<noteq> canon True (l0 ! k)"
      by auto
    have "canon True (h ! k) = canon True (l ! k)" "canon True (h0 ! k) = canon True (l0 ! k)"
      using assms(3,4) k(1,2) len unfolding eq_ci_def by (metis nth_map)+
    moreover have "h ! k = (h @ x) ! k" "h0 ! k = (h0 @ y) ! k"
      using k(1,2) len by (simp_all add: nth_append)
    ultimately show False
      using k(3) assms(5) by simp
  qed
  then have "length h = length h0"
    using len by simp
  then show ?thesis
    using assms(5) by simp
qed

lemma run_then_char_unique:
  assumes "\<forall>c\<in>set w. P c" "\<forall>c\<in>set w0. P c" "\<not> P a" "w @ a # x = w0 @ a # y"
  shows "w = w0 \<and> x = y"
proof -
  have "takeWhile P (w @ a # x) = w" "takeWhile P (w0 @ a # y) = w0"
    using assms(1,2,3) by (simp_all add: takeWhile_tail)
  then have "w = w0"
    using assms(4) by simp
  then show ?thesis
    using assms(4) by simp
qed

lemma skills_body_complete:
  assumes "body \<noteq> []" "stop_at rest"
  shows "rmatch True (Seq (Grp 2 (RepLazy (Neg []) 1))
           (Seq (alts (map Lit SKILLS_STOPS)) (Lit []))) (b4, body @ rest, g4) \<noteq> []"
proof -
  have "1 \<le> length body"
    using assms(1) by (cases body) auto
  moreover have "\<forall>c\<in>set body. in_class True (Neg []) c"
    by simp
  ultimately have "(b4 \<and> body = [], rest, g4) \<in> set (rmatch True (RepLazy (Neg []) 1) (b4, body @ rest, g4))"
    by (rule RepLazy_I)
  from Grp_I[OF this, of 2] show ?thesis
    using stops_succeed[OF assms(2)] by (rule Seq_ne)
qed

lemma opt_space_first:
  assumes "rmatch True (Opt (Lit (str '' ''))) (b3, s3, g3) = pre @ (b4, s4, g4) # post"
    "\<forall>p\<in>set pre. rmatch True K p = []"
    "s3 = s4"
  shows "\<forall>t. s3 = str '' '' @ t \<longrightarrow> rmatch True K (False, t, g3) = []"
proof (intro allI impI)
  fix t
  assume t: "s3 = str '' '' @ t"
  have "rmatch True (Lit (str '' '')) (b3, s3, g3) = [(False, t, g3)]"
    unfolding t by (simp add: advance_def)
  then have "[(False, t, g3), (b3, s3, g3)] = pre @ (b4, s4, g4) # post"
    using assms(1) by simp
  moreover have "(False, t, g3) \<noteq> (b4, s4, g4)"
    using assms(3) t by auto
  ultimately have "(False, t, g3) \<in> set pre"
    by (cases pre) auto
  then show "rmatch True K (False, t, g3) = []"
    using assms(2) by blast
qed

lemma skills_rmatch_hd:
  assumes "rmatch True SKILLS_REGEX (b, s, g) = (b', s', g') # others"
  shows "\<exists>h w sp body rest.
           s = h @ w @ str '':'' @ sp @ body @ rest \<and>
           (\<exists>l\<in>set SKILLS_LABELS. eq_ci h l) \<and>
           (\<forall>c\<in>set w. is_space c) \<and>
           (sp = [] \<or> sp = str '' '') \<and>
           body \<noteq> [] \<and>
           stop_at rest \<and>
           (\<forall>j. 0 < j \<and> j < length body \<longrightarrow> \<not> stop_at (drop j (body @ rest))) \<and>
           (sp = [] \<longrightarrow>
              (\<forall>body' rest'. body @ rest = str '' '' @ body' @ rest' \<and> body' \<noteq> [] \<longrightarrow>
                 \<not> stop_at rest')) \<and>
           g' 2 = Some body"
proof -
  let ?R = "Rep (Pos space_chars) 0 None"
  let ?G2 = "Grp 2 (RepLazy (Neg []) 1)"
  let ?S = "alts (map Lit SKILLS_STOPS)"
  let ?K5 = "Seq ?S (Lit [])"
  let ?K4 = "Seq ?G2 ?K5"
  let ?K3 = "Seq (Opt (Lit (str '' ''))) ?K4"
  let ?K2 = "Seq (Lit (str '':'')) ?K3"
  let ?K1 = "Seq ?R ?K2"
  let ?x = "(b', s', g')"
  have re: "SKILLS_REGEX = Seq (Grp 1 (alts (map Lit SKILLS_LABELS))) ?K1"
    by (simp add: SKILLS_REGEX_def seqs_def)
  from Seq_hd[OF assms[unfolded re]] obtain b1 s1 g1 ys1 where
    1: "(b1, s1, g1) \<in> set (rmatch True (Grp 1 (alts (map Lit SKILLS_LABELS))) (b, s, g))"
    and r1: "rmatch True ?K1 (b1, s1, g1) = ?x # ys1"
    by (metis in_set_conv_decomp prod_cases3)
  from Grp_D[OF 1] obtain g0 where
    "(b1, s1, g0) \<in> set (rmatch True (alts (map Lit SKILLS_LABELS)) (b, s, g))"
    by blast
  from alts_Lit_D[OF this labels_ne(2)] obtain h where
    h: "s = h @ s1" "\<exists>l\<in>set SKILLS_LABELS. eq_ci h l"
    unfolding eq_ci_def by blast
  from Seq_hd[OF r1] obtain b2 s2 g2 ys2 where
    2: "(b2, s2, g2) \<in> set (rmatch True ?R (b1, s1, g1))"
    and r2: "rmatch True ?K2 (b2, s2, g2) = ?x # ys2"
    by (metis in_set_conv_decomp prod_cases3)
  from Rep_D[OF 2] obtain w where
    w: "s1 = w @ s2" "\<forall>c\<in>set w. is_space c"
    unfolding in_class_space by blast
  from Seq_hd[OF r2] obtain b3 s3 g3 ys3 where
    3: "(b3, s3, g3) \<in> set (rmatch True (Lit (str '':'')) (b2, s2, g2))"
    and r3: "rmatch True ?K3 (b3, s3, g3) = ?x # ys3"
    by (metis in_set_conv_decomp prod_cases3)
  from Lit_D[OF 3] obtain x where "s2 = x @ s3" "map (canon True) x = map (canon True) (str '':'')"
    by blast
  then have c: "s2 = str '':'' @ s3"
    using map_canon_caseless[of True x "str '':''"] by simp
  from Seq_hd[OF r3] obtain pre4 b4 s4 g4 post4 ys4 where
    e4: "rmatch True (Opt (Lit (str '' ''))) (b3, s3, g3) = pre4 @ (b4, s4, g4) # post4"
    and f4: "\<forall>p\<in>set pre4. rmatch True ?K4 p = []"
    and r4: "rmatch True ?K4 (b4, s4, g4) = ?x # ys4"
    by (metis prod_cases3)
  have 4: "(b4, s4, g4) \<in> set (rmatch True (Opt (Lit (str '' ''))) (b3, s3, g3))"
    unfolding e4 by simp
  have "\<exists>sp. s3 = sp @ s4 \<and> (sp = [] \<or> sp = str '' '')"
  proof -
    from Opt_D[OF 4] show ?thesis
    proof
      assume "(b4, s4, g4) \<in> set (rmatch True (Lit (str '' '')) (b3, s3, g3))"
      from Lit_D[OF this] obtain y where "s3 = y @ s4" "map (canon True) y = map (canon True) (str '' '')"
        by blast
      then have "s3 = str '' '' @ s4"
        using map_canon_caseless[of True y "str '' ''"] by simp
      then show ?thesis by blast
    next
      assume "(b4, s4, g4) = (b3, s3, g3)"
      then show ?thesis by simp
    qed
  qed
  then obtain sp where sp: "s3 = sp @ s4" "sp = [] \<or> sp = str '' ''"
    by blast
  have pri: "\<not> stop_at rest'" if "sp = []" "s4 = str '' '' @ body' @ rest'" "body' \<noteq> []"
    for body' rest'
  proof
    assume a: "stop_at rest'"
    have "s3 = s4"
      using sp(1) that(1) by simp
    from opt_space_first[OF e4 f4 this] have "rmatch True ?K4 (False, body' @ rest', g3) = []"
      using that(2) \<open>s3 = s4\<close> by blast
    then show False
      using skills_body_complete[OF that(3) a] by blast
  qed
  let ?n = "run_len True (Neg []) None s4"
  let ?F = "\<lambda>k. (b4 \<and> k = 0, drop k s4, g4(2 \<mapsto> take (length s4 - length (drop k s4)) s4))"
  have g2: "rmatch True ?G2 (b4, s4, g4) = map ?F [1 ..< Suc ?n]"
    by (simp add: advance_def del: upt_Suc)
  from Seq_hd[OF r4] obtain pre st5 post ys5 where
    5: "rmatch True ?G2 (b4, s4, g4) = pre @ st5 # post"
    and f5: "\<forall>p\<in>set pre. rmatch True ?K5 p = []"
    and r5: "rmatch True ?K5 st5 = ?x # ys5"
    by blast
  from 5[unfolded g2] obtain us k vs where
    k: "[1 ..< Suc ?n] = us @ k # vs" "pre = map ?F us" "st5 = ?F k"
    by (auto simp: map_eq_append_conv map_eq_Cons_conv)
  from upt_split[OF k(1)] have us: "us = [1 ..< k]" "1 \<le> k" "k \<le> ?n"
    by auto
  have kl: "k \<le> length s4"
    using run_len_class[OF us(3)] by simp
  define body where "body = take k s4"
  define rest where "rest = drop k s4"
  have s4: "s4 = body @ rest" "length body = k" "body \<noteq> []"
    using kl us(2) by (auto simp: body_def rest_def)
  have min: "\<not> stop_at (drop j (body @ rest))" if "0 < j" "j < length body" for j
  proof -
    have "j \<in> set us"
      using that s4(2) us(1) by auto
    then have "?F j \<in> set pre"
      using k(2) by auto
    then have "rmatch True ?K5 (?F j) = []"
      using f5 by blast
    from stops_fail[OF this] show ?thesis
      using s4(1) by simp
  qed
  have st5: "st5 = (b4 \<and> k = 0, rest, g4(2 \<mapsto> body))"
    using k(3) kl by (simp add: rest_def body_def)
  from Seq_hd[OF r5[unfolded st5]] obtain b6 s6 g6 ys6 where
    6: "(b6, s6, g6) \<in> set (rmatch True ?S (b4 \<and> k = 0, rest, g4(2 \<mapsto> body)))"
    and r6: "rmatch True (Lit []) (b6, s6, g6) = ?x # ys6"
    by (metis in_set_conv_decomp prod_cases3)
  from alts_Lit_D[OF 6 stops_ne(2)] obtain stop l where
    stop: "rest = stop @ s6" "l \<in> set SKILLS_STOPS" "map (canon True) stop = map (canon True) l"
      "g6 = g4(2 \<mapsto> body)"
    by blast
  have sa: "stop_at rest"
    unfolding stop(1) using stop(2,3) by (rule stop_at_I)
  have "g' = g6"
    using r6 by (auto simp: advance_def)
  then have cap: "g' 2 = Some body"
    using stop(4) by simp
  have "s = h @ w @ str '':'' @ sp @ body @ rest"
    using h(1) w(1) c sp(1) s4(1) by simp
  moreover have "sp = [] \<longrightarrow>
      (\<forall>body' rest'. body @ rest = str '' '' @ body' @ rest' \<and> body' \<noteq> [] \<longrightarrow> \<not> stop_at rest')"
    using pri s4(1) by blast
  ultimately show ?thesis
    using h(2) w(2) sp(2) s4(3) sa min cap by blast
qed

lemma skills_rmatch_complete:
  assumes "l \<in> set SKILLS_LABELS" "eq_ci h l" "\<forall>c\<in>set w. is_space c"
    "sp = [] \<or> sp = str '' ''" "body \<noteq> []" "stop_at rest"
  shows "rmatch True SKILLS_REGEX (b, h @ w @ str '':'' @ sp @ body @ rest, g) \<noteq> []"
proof -
  let ?R = "Rep (Pos space_chars) 0 None"
  let ?G2 = "Grp 2 (RepLazy (Neg []) 1)"
  let ?S = "alts (map Lit SKILLS_STOPS)"
  let ?K5 = "Seq ?S (Lit [])"
  let ?K4 = "Seq ?G2 ?K5"
  let ?K3 = "Seq (Opt (Lit (str '' ''))) ?K4"
  let ?K2 = "Seq (Lit (str '':'')) ?K3"
  let ?K1 = "Seq ?R ?K2"
  have re: "SKILLS_REGEX = Seq (Grp 1 (alts (map Lit SKILLS_LABELS))) ?K1"
    by (simp add: SKILLS_REGEX_def seqs_def)
  have k4: "rmatch True ?K4 (b4, body @ rest, g4) \<noteq> []" for b4 g4
  proof -
    have "1 \<le> length body"
      using assms(5) by (cases body) auto
    moreover have "\<forall>c\<in>set body. in_class True (Neg []) c"
      by simp
    ultimately have "(b4 \<and> body = [], rest, g4) \<in> set (rmatch True (RepLazy (Neg []) 1) (b4, body @ rest, g4))"
      by (rule RepLazy_I)
    from Grp_I[OF this, of 2] show ?thesis
      using stops_succeed[OF assms(6)] by (rule Seq_ne)
  qed
  have k3: "rmatch True ?K3 (b3, sp @ body @ rest, g3) \<noteq> []" for b3 g3
  proof (cases "sp = []")
    case True
    have "(b3, body @ rest, g3) \<in> set (rmatch True (Opt (Lit (str '' ''))) (b3, body @ rest, g3))"
      by simp
    then show ?thesis
      unfolding True append_Nil using k4 by (rule Seq_ne)
  next
    case False
    then have sp: "sp = str '' ''"
      using assms(4) by simp
    have "(b3 \<and> (str '' '') = [], body @ rest, g3) \<in> set (rmatch True (Lit (str '' '')) (b3, str '' '' @ body @ rest, g3))"
      by (rule Lit_I) simp
    then have "(b3 \<and> (str '' '') = [], body @ rest, g3) \<in> set (rmatch True (Opt (Lit (str '' ''))) (b3, str '' '' @ body @ rest, g3))"
      by (simp only: rmatch.simps set_append) blast
    then show ?thesis
      unfolding sp using k4 by (rule Seq_ne)
  qed
  have k2: "rmatch True ?K2 (b2, str '':'' @ sp @ body @ rest, g2) \<noteq> []" for b2 g2
  proof -
    have "(b2 \<and> (str '':'') = [], sp @ body @ rest, g2) \<in> set (rmatch True (Lit (str '':'')) (b2, str '':'' @ sp @ body @ rest, g2))"
      by (rule Lit_I) simp
    then show ?thesis
      using k3 by (rule Seq_ne)
  qed
  have k1: "rmatch True ?K1 (b1, w @ str '':'' @ sp @ body @ rest, g1) \<noteq> []" for b1 g1
  proof -
    have "\<forall>c\<in>set w. in_class True (Pos space_chars) c"
      unfolding in_class_space using assms(3) .
    then have "(b1 \<and> w = [], str '':'' @ sp @ body @ rest, g1) \<in> set (rmatch True ?R (b1, w @ str '':'' @ sp @ body @ rest, g1))"
      by (intro Rep_I) simp
    then show ?thesis
      using k2 by (rule Seq_ne)
  qed
  let ?s1 = "w @ str '':'' @ sp @ body @ rest"
  have "(b \<and> l = [], ?s1, g) \<in> set (rmatch True (Lit l) (b, h @ ?s1, g))"
    using assms(2) unfolding eq_ci_def by (rule Lit_I)
  then have "(b \<and> l = [], ?s1, g) \<in> set (rmatch True (alts (map Lit SKILLS_LABELS)) (b, h @ ?s1, g))"
    using assms(1) alts_set[OF labels_ne(1), of True "(b, h @ ?s1, g)"] by auto
  from Grp_I[OF this, of 1] show ?thesis
    unfolding re using k1 by (rule Seq_ne)
qed

lemma section_rmatch:
  assumes "skills_section text pre h w sp body rest"
  shows "length pre \<le> length text"
    "rmatch True SKILLS_REGEX (b, drop (length pre) text, g) \<noteq> []"
proof -
  from assms obtain l where l: "l \<in> set SKILLS_LABELS" "eq_ci h l"
    unfolding skills_section_def by blast
  have t: "text = pre @ h @ w @ str '':'' @ sp @ body @ rest"
    using assms unfolding skills_section_def by blast
  show "length pre \<le> length text"
    unfolding t by simp
  have "rmatch True SKILLS_REGEX (b, h @ w @ str '':'' @ sp @ body @ rest, g) \<noteq> []"
    using l assms unfolding skills_section_def by (intro skills_rmatch_complete) blast+
  moreover have "drop (length pre) text = h @ w @ str '':'' @ sp @ body @ rest"
    unfolding t by simp
  ultimately show "rmatch True SKILLS_REGEX (b, drop (length pre) text, g) \<noteq> []"
    by simp
qed

lemma section_search:
  assumes "skills_section text pre h w sp body rest"
  shows "search True SKILLS_REGEX True text \<noteq> None"
  using section_rmatch(1)[OF assms]
    section_rmatch(2)[OF assms, of "True \<and> length pre = 0" Map.empty]
    search_complete[of "length pre" "text" True SKILLS_REGEX True] by blast

lemma search_section:
  assumes "search True SKILLS_REGEX True text = Some (i, m, g)"
  shows "\<exists>h w sp body rest.
           first_skills_section text (take i text) h w sp body rest \<and>
           (sp = [] \<longrightarrow>
              (\<forall>body' rest'. body @ rest = str '' '' @ body' @ rest' \<and> body' \<noteq> [] \<longrightarrow>
                 \<not> stop_at rest')) \<and>
           i \<le> length text \<and> g 2 = Some body"
proof -
  from search_hd[OF assms] obtain b' s' others where
    i: "i \<le> length text" and
    "rmatch True SKILLS_REGEX (True \<and> i = 0, drop i text, Map.empty) = (b', s', g) # others"
    by blast
  from skills_rmatch_hd[OF this(2)] obtain h w sp body rest where
    d: "drop i text = h @ w @ str '':'' @ sp @ body @ rest"
       "\<exists>l\<in>set SKILLS_LABELS. eq_ci h l" "\<forall>c\<in>set w. is_space c"
       "sp = [] \<or> sp = str '' ''" "body \<noteq> []" "stop_at rest"
       "\<forall>j. 0 < j \<and> j < length body \<longrightarrow> \<not> stop_at (drop j (body @ rest))"
       "sp = [] \<longrightarrow>
          (\<forall>body' rest'. body @ rest = str '' '' @ body' @ rest' \<and> body' \<noteq> [] \<longrightarrow>
             \<not> stop_at rest')"
       "g 2 = Some body"
    by blast
  have t: "text = take i text @ h @ w @ str '':'' @ sp @ body @ rest"
    using d(1) by (metis append_take_drop_id)
  then have 1: "skills_section text (take i text) h w sp body rest"
    unfolding skills_section_def using d(2-6) by blast
  have 2: "length (take i text) \<le> length pre'"
    if "skills_section text pre' h' w' sp' body' rest'" for pre' h' w' sp' body' rest'
  proof (rule ccontr)
    assume "\<not> length (take i text) \<le> length pre'"
    then have "length pre' < i"
      using i by simp
    from search_first[OF assms this] show False
      using section_rmatch(2)[OF that] by blast
  qed
  have 3: "\<not> skills_section text (take i text) h w (str '' '') body' rest'"
    if "sp = []" for body' rest'
  proof
    assume a: "skills_section text (take i text) h w (str '' '') body' rest'"
    then have "text = take i text @ h @ w @ str '':'' @ str '' '' @ body' @ rest'"
      unfolding skills_section_def by blast
    then have "body @ rest = str '' '' @ body' @ rest'"
      using t that by (metis append_Nil same_append_eq)
    moreover have "body' \<noteq> []" "stop_at rest'"
      using a unfolding skills_section_def by blast+
    ultimately show False
      using d(8) that by blast
  qed
  have 4: "\<forall>j\<in>set [1 ..< length body]. \<not> stop_at (drop j (body @ rest))"
    using d(7) by simp
  have "first_skills_section text (take i text) h w sp body rest"
    unfolding first_skills_section_def using 1 2 3 4 by blast
  then show ?thesis
    using d(8,9) i by blast
qed

lemma shortest_body_unique:
  assumes "body @ rest = body0 @ rest0" "body \<noteq> []" "stop_at rest"
    "\<forall>j\<in>set [1 ..< length body0]. \<not> stop_at (drop j (body0 @ rest0))"
  shows "length body0 \<le> length body"
proof (rule ccontr)
  assume "\<not> length body0 \<le> length body"
  then have "length body \<in> set [1 ..< length body0]"
    using assms(2) by (cases body) auto
  then have "\<not> stop_at (drop (length body) (body0 @ rest0))"
    using assms(4) by blast
  then show False
    using assms(1,3) by (metis append_eq_conv_conj)
qed

lemma first_section_body:
  assumes "first_skills_section text pre h w sp body rest"
  shows "\<exists>i m g. search True SKILLS_REGEX True text = Some (i, m, g) \<and> g 2 = Some body"
proof -
  have sec: "skills_section text pre h w sp body rest"
    and left: "\<And>pre' h' w' sp' body' rest'.
      skills_section text pre' h' w' sp' body' rest' \<Longrightarrow> length pre \<le> length pre'"
    and pri: "sp = [] \<Longrightarrow> \<not> skills_section text pre h w (str '' '') body' rest'"
    and short: "\<forall>j\<in>set [1 ..< length body]. \<not> stop_at (drop j (body @ rest))"
    for body' rest'
    using assms unfolding first_skills_section_def by blast+
  from section_search[OF sec] obtain i m g where
    s: "search True SKILLS_REGEX True text = Some (i, m, g)"
    by auto
  from search_section[OF s] obtain h0 w0 sp0 body0 rest0 where
    f0: "first_skills_section text (take i text) h0 w0 sp0 body0 rest0"
    and pri0: "sp0 = [] \<longrightarrow>
          (\<forall>body' rest'. body0 @ rest0 = str '' '' @ body' @ rest' \<and> body' \<noteq> [] \<longrightarrow>
             \<not> stop_at rest')"
    and i: "i \<le> length text" and g: "g 2 = Some body0"
    by blast
  have sec0: "skills_section text (take i text) h0 w0 sp0 body0 rest0"
    and left0: "\<And>pre' h' w' sp' body' rest'.
      skills_section text pre' h' w' sp' body' rest' \<Longrightarrow> length (take i text) \<le> length pre'"
    and short0: "\<forall>j\<in>set [1 ..< length body0]. \<not> stop_at (drop j (body0 @ rest0))"
    using f0 unfolding first_skills_section_def by blast+
  have t: "text = pre @ h @ w @ str '':'' @ sp @ body @ rest"
    and p: "\<exists>l\<in>set SKILLS_LABELS. eq_ci h l" "\<forall>c\<in>set w. is_space c"
      "sp = [] \<or> sp = str '' ''" "body \<noteq> []" "stop_at rest"
    using sec unfolding skills_section_def by blast+
  have t0: "text = take i text @ h0 @ w0 @ str '':'' @ sp0 @ body0 @ rest0"
    and p0: "\<exists>l\<in>set SKILLS_LABELS. eq_ci h0 l" "\<forall>c\<in>set w0. is_space c"
      "sp0 = [] \<or> sp0 = str '' ''" "body0 \<noteq> []" "stop_at rest0"
    using sec0 unfolding skills_section_def by blast+
  have "length pre = length (take i text)"
    by (rule le_antisym[OF left[OF sec0] left0[OF sec]])
  then have pre: "pre = take i text"
    using t by (metis append_eq_conv_conj length_take min.absorb2 i)
  then have 1: "h @ w @ str '':'' @ sp @ body @ rest = h0 @ w0 @ str '':'' @ sp0 @ body0 @ rest0"
    using t t0 by (metis same_append_eq)
  have h: "h = h0"
    using p(1) p0(1) 1 label_at_unique by blast
  have nsp: "\<not> is_space (Ch (CHR '':''))"
    by (simp add: is_space_def space_chars_def)
  have "w @ Ch (CHR '':'') # (sp @ body @ rest) = w0 @ Ch (CHR '':'') # (sp0 @ body0 @ rest0)"
    using 1 h by simp
  from run_then_char_unique[OF p(2) p0(2) nsp this]
  have w: "w = w0" and 2: "sp @ body @ rest = sp0 @ body0 @ rest0"
    by blast+
  have sp: "sp = sp0"
  proof (rule ccontr)
    assume ne: "sp \<noteq> sp0"
    show False
    proof (cases "sp = []")
      case True
      then have "sp0 = str '' ''"
        using ne p0(3) by blast
      then show False
        using pri[OF True] sec0 pre h w by blast
    next
      case False
      then have "sp = str '' ''" "sp0 = []"
        using ne p(3) p0(3) by blast+
      then have "body0 @ rest0 = str '' '' @ body @ rest"
        using 2 by simp
      then show False
        using pri0 \<open>sp0 = []\<close> p(4,5) by blast
    qed
  qed
  then have 3: "body @ rest = body0 @ rest0"
    using 2 by simp
  have "length body0 \<le> length body" "length body \<le> length body0"
    using shortest_body_unique[OF 3 p(4,5) short0]
      shortest_body_unique[OF 3[symmetric] p0(4,5) short] by blast+
  then have "body = body0"
    using 3 by (metis append_eq_append_conv le_antisym)
  then show ?thesis
    using s g by blast
qed

lemma extractSkills_first_section:
  "(first_skills_section text pre h w sp body rest \<longrightarrow>
      extractSkills text = Inr (skillTokens body)) \<and>
   ((\<exists>pre h w sp body rest. skills_section text pre h w sp body rest) \<longrightarrow>
      (\<exists>pre h w sp body rest. first_skills_section text pre h w sp body rest)) \<and>
   (\<not> (\<exists>pre h w sp body rest. skills_section text pre h w sp body rest) \<longrightarrow>
      extractSkills text = Inr [])"
proof (intro conjI impI)
  assume "first_skills_section text pre h w sp body rest"
  from first_section_body[OF this] show "extractSkills text = Inr (skillTokens body)"
    by (auto simp: extractSkills_def skillTokens_def)
next
  assume "\<exists>pre h w sp body rest. skills_section text pre h w sp body rest"
  then obtain i m g where "search True SKILLS_REGEX True text = Some (i, m, g)"
    using section_search by fastforce
  from search_section[OF this]
  show "\<exists>pre h w sp body rest. first_skills_section text pre h w sp body rest"
    by blast
next
  assume no: "\<not> (\<exists>pre h w sp body rest. skills_section text pre h w sp body rest)"
  have "search True SKILLS_REGEX True text = None"
  proof (rule ccontr)
    assume "search True SKILLS_REGEX True text \<noteq> None"
    then obtain i m g where "search True SKILLS_REGEX True text = Some (i, m, g)"
      by auto
    from search_section[OF this] obtain h w sp body rest where
      "first_skills_section text (take i text) h w sp body rest"
      by blast
    then have "skills_section text (take i text) h w sp body rest"
      unfolding first_skills_section_def by blast
    then show False
      using no by blast
  qed
  then show "extractSkills text = Inr []"
    by (simp add: extractSkills_def)
qed

lemma section_label_at:
  assumes "skills_section text pre h w sp body rest"
  shows "\<exists>l\<in>set SKILLS_LABELS. ci_prefix l (drop (length pre) text)"
proof -
  from assms obtain l where l: "l \<in> set SKILLS_LABELS" "eq_ci h l"
    and t: "text = pre @ h @ w @ str '':'' @ sp @ body @ rest"
    unfolding skills_section_def by blast
  have "length h = length l"
    using l(2) unfolding eq_ci_def by (metis length_map)
  then have "ci_prefix l (drop (length pre) text)"
    using l(2) unfolding t ci_prefix_def by simp
  then show ?thesis
    using l(1) by blast
qed

lemma extractSkills_Inr: "\<exists>ks. extractSkills text = Inr ks"
proof (cases "search True SKILLS_REGEX True text")
  case None
  then show ?thesis
    by (simp add: extractSkills_def)
next
  case (Some a)
  then obtain i m g where s: "search True SKILLS_REGEX True text = Some (i, m, g)"
    by (cases a) auto
  from search_section[OF s] obtain body where "g 2 = Some body"
    by blast
  then show ?thesis
    using s by (simp add: extractSkills_def)
qed

lemma username_search:
  assumes "search True USERNAME_REGEX True s = Some (i, m, g)"
  shows "11 \<le> length s \<and> eq_ci (take 11 s) (str ''github.com/'') \<and>
         takeWhile segment_char (drop 11 s) \<noteq> [] \<and>
         g 1 = Some (takeWhile segment_char (drop 11 s))"
proof -
  let ?A = "Neg (str ''/'' @ space_chars)"
  let ?h = "str ''github.com/''"
  let ?f = "\<lambda>t k. (False, drop (length ?h + k) t, [(1::nat) \<mapsto> take k (drop (length ?h) t)])"
  let ?n = "\<lambda>t. length (takeWhile (in_class True ?A) (drop (length ?h) t))"
  have cls: "in_class True ?A = segment_char"
    using in_class_segment by blast
  have um: "rmatch True USERNAME_REGEX (b, t, Map.empty) =
     (if b \<and> length ?h \<le> length t \<and> map (canon True) (take (length ?h) t) = map (canon True) ?h
      then map (?f t) (rev [1 ..< Suc (?n t)]) else [])" for b t
    unfolding USERNAME_REGEX_def by (rule anchored_group_rmatch) simp
  from search_hd[OF assms] obtain b' s' rest where
    h: "rmatch True USERNAME_REGEX (True \<and> i = 0, drop i s, Map.empty) = (b', s', g) # rest"
    by blast
  have i: "i = 0"
    using h unfolding um by (cases "i = 0") simp_all
  define C where
    "C = (length ?h \<le> length s \<and> map (canon True) (take (length ?h) s) = map (canon True) ?h)"
  define L where "L = map (?f s) (rev [1 ..< Suc (?n s)])"
  have "(if C then L else []) = (b', s', g) # rest"
    using h unfolding um i C_def L_def by (simp only: drop_0 simp_thms)
  then have "C" and l0: "L = (b', s', g) # rest"
    by (cases C; simp)+
  then have c: "length ?h \<le> length s"
     "map (canon True) (take (length ?h) s) = map (canon True) ?h"
    and l: "map (?f s) (rev [1 ..< Suc (?n s)]) = (b', s', g) # rest"
    unfolding C_def L_def by blast+
  have n: "1 \<le> ?n s"
  proof (rule ccontr)
    assume "\<not> 1 \<le> ?n s"
    then have "[1 ..< Suc (?n s)] = []"
      by simp
    then show False
      using l by simp
  qed
  then have "rev [1 ..< Suc (?n s)] = ?n s # rev [1 ..< ?n s]"
    by simp
  then have "?f s (?n s) = (b', s', g)"
    using l by simp
  then have "g 1 = Some (take (?n s) (drop (length ?h) s))"
    by auto
  then have gc: "g 1 = Some (takeWhile (in_class True ?A) (drop (length ?h) s))"
    by (simp only: takeWhile_eq_take[symmetric])
  have len: "length ?h = 11"
    by simp
  have ne: "takeWhile (in_class True ?A) (drop (length ?h) s) \<noteq> []"
    using n by (metis length_0_conv not_one_le_zero)
  show ?thesis
    using c[unfolded len] gc[unfolded len cls] ne[unfolded len cls]
    unfolding eq_ci_def by blast
qed

lemma usernameOf_Some:
  assumes "usernameOf raw = Some u"
  shows "\<exists>url. raw = Some url \<and>
           11 \<le> length (stripHost url) \<and> eq_ci (take 11 (stripHost url)) (str ''github.com/'') \<and>
           u = takeWhile segment_char (drop 11 (stripHost url)) \<and> u \<noteq> []"
proof -
  from assms obtain url where raw: "raw = Some url"
    by (cases raw) (auto simp: usernameOf_def)
  with assms obtain i m g where
    s: "search True USERNAME_REGEX True (stripHost url) = Some (i, m, g)" and g: "g 1 = Some u"
    by (auto simp: usernameOf_def split: if_splits option.splits)
  from username_search[OF s] show ?thesis
    using raw g by auto
qed

subsection \<open>The fields of the result\<close>

lemma match_g_all: "(case match_g ic r s of None \<Rightarrow> [] | Some ms \<Rightarrow> ms) = match_all ic r s"
  by (simp add: match_g_def split: list.splits)

lemma match_g_map:
  "(case match_g ic r s of None \<Rightarrow> [] | Some ms \<Rightarrow> filter P (map f ms))
     = filter P (map f (match_all ic r s))"
  by (simp add: match_g_def split: list.splits)

lemma parseResumeText_fields:
  "\<exists>r. parseResumeText text = Inr r \<and>
       rawText r = cleanText text \<and>
       name r = extractName (split_on (\<lambda>c. c = LF) (cleanText text)) \<and>
       emails r = map toLowerCase (array_from_set (match_all True EMAIL_REGEX (cleanText text))) \<and>
       phones r = filter (\<lambda>phone. 10 \<le> digitCount phone)
                    (map normalizePhone (match_all False PHONE_REGEX (cleanText text))) \<and>
       githubUsername r = usernameOf (rawGithubUrl (cleanText text)) \<and>
       skills r = projr (extractSkills (cleanText text)) \<and>
       summary r = buildSummary (tokenizeSentences (cleanText text))"
proof -
  obtain ks where "extractSkills (cleanText text) = Inr ks"
    using extractSkills_Inr by blast
  then show ?thesis
    by (simp add: parseResumeText_def Let_def match_g_all match_g_map)
qed

section \<open>The claims\<close>

subsection \<open>C1: e-mail addresses\<close>

text \<open>
  C1. The e-mail matches are de-duplicated by their exact text and lower-cased only
  afterwards. A text with the same address in two spellings therefore yields the
  lower-cased address twice: the \<open>emails\<close> field has two entries that are equal.
\<close>

theorem emails_duplicate_after_lowercase:
  "\<exists>r. parseResumeText (str ''A@b.co a@b.co'') = Inr r \<and> emails r = [str ''a@b.co'', str ''a@b.co'']"
proof -
  have c: "cleanText (str ''A@b.co a@b.co'') = str ''A@b.co a@b.co''"
    by code_simp
  have m: "match_all True EMAIL_REGEX (str ''A@b.co a@b.co'') = [str ''A@b.co'', str ''a@b.co'']"
    by code_simp
  have l: "map toLowerCase (array_from_set [str ''A@b.co'', str ''a@b.co'']) = [str ''a@b.co'', str ''a@b.co'']"
    by code_simp
  show ?thesis
    using parseResumeText_fields[of "str ''A@b.co a@b.co''"] unfolding c m l by blast
qed

subsection \<open>C2: phone numbers\<close>

text \<open>
  C2, as the claim states it, fails: the phone matches are normalised and filtered but
  not de-duplicated. A number that stands twice in the text stands twice in \<open>phones\<close>.
\<close>

theorem phones_not_distinct:
  "\<exists>r. parseResumeText (str ''415-555-2671 415-555-2671'') = Inr r \<and>
       phones r = [str ''415-555-2671'', str ''415-555-2671''] \<and> \<not> distinct (phones r)"
proof -
  have c: "cleanText (str ''415-555-2671 415-555-2671'') = str ''415-555-2671 415-555-2671''"
    by code_simp
  have m: "match_all False PHONE_REGEX (str ''415-555-2671 415-555-2671'')
             = [str ''415-555-2671'', str ''415-555-2671'']"
    by code_simp
  have f: "filter (\<lambda>phone. 10 \<le> digitCount phone)
             (map normalizePhone [str ''415-555-2671'', str ''415-555-2671''])
             = [str ''415-555-2671'', str ''415-555-2671'']"
    by code_simp
  obtain r where r: "parseResumeText (str ''415-555-2671 415-555-2671'') = Inr r"
    "phones r = [str ''415-555-2671'', str ''415-555-2671'']"
    using parseResumeText_fields[of "str ''415-555-2671 415-555-2671''"] unfolding c m f by blast
  then have "\<not> distinct (phones r)"
    by simp
  then show ?thesis
    using r by blast
qed

text \<open>
  C2, amended. For every input string, the \<open>phones\<close> field is the sequence of the matches
  of the phone pattern in the normalized text, in the order of the matches, each with its
  white space normalised, keeping those with at least ten digits. Every entry has at
  least ten digits and is white-space normalised. No de-duplication takes place.
\<close>

theorem phones_normalized_in_match_order:
  assumes "parseResumeText text = Inr r"
  shows "phones r = filter (\<lambda>phone. 10 \<le> digitCount phone)
                      (map normalizePhone (match_all False PHONE_REGEX (cleanText text))) \<and>
         (\<forall>p\<in>set (phones r). 10 \<le> length (filter is_digit p) \<and> ws_normalized p)"
proof -
  have 1: "phones r = filter (\<lambda>phone. 10 \<le> digitCount phone)
                      (map normalizePhone (match_all False PHONE_REGEX (cleanText text)))"
    using assms parseResumeText_fields[of "text"] by auto
  then have "\<forall>p\<in>set (phones r). 10 \<le> length (filter is_digit p) \<and> ws_normalized p"
    using ws_normalized_normalizePhone by (auto simp: digitCount_def)
  then show ?thesis
    using 1 by blast
qed

text \<open>The amended C2 at a text with one number, written with an area code in brackets.\<close>

theorem phones_normalized_in_match_order_witness:
  "\<exists>r. parseResumeText (str ''(415) 555-2671'') = Inr r \<and> phones r = [str ''(415) 555-2671''] \<and>
       ws_normalized (str ''(415) 555-2671'')"
proof -
  have c: "cleanText (str ''(415) 555-2671'') = str ''(415) 555-2671''"
    by code_simp
  have m: "match_all False PHONE_REGEX (str ''(415) 555-2671'') = [str ''(415) 555-2671'']"
    by code_simp
  have f: "filter (\<lambda>phone. 10 \<le> digitCount phone) (map normalizePhone [str ''(415) 555-2671''])
             = [str ''(415) 555-2671'']"
    by code_simp
  obtain r where r: "parseResumeText (str ''(415) 555-2671'') = Inr r"
    using parseResumeText_fields[of "str ''(415) 555-2671''"] by blast
  from phones_normalized_in_match_order[OF r] have
    "phones r = [str ''(415) 555-2671'']" "\<forall>p\<in>set (phones r). ws_normalized p"
    unfolding c m f by auto
  then show ?thesis
    using r by auto
qed

subsection \<open>C3: line endings\<close>

text \<open>
  C3. The normalizer turns every CR into LF, the CR of a CR-LF pair included, so a CR-LF
  line ending becomes two line feeds, a blank line, where the same text with LF line
  endings keeps one line feed. The parser itself relies on single line ends: the headline
  is read from the line that follows the name, and after a CR-LF that line is empty.
\<close>

theorem cleanText_crlf_blank_line:
  "cleanText (str ''a'' @ [CR, LF] @ str ''b'') = str ''a'' @ [LF, LF] @ str ''b'' \<and>
   cleanText (str ''a'' @ [LF] @ str ''b'') = str ''a'' @ [LF] @ str ''b'' \<and>
   cleanText (str ''a'' @ [CR, LF] @ str ''b'') \<noteq> cleanText (str ''a'' @ [LF] @ str ''b'') \<and>
   extractHeadline (split_on (\<lambda>c. c = LF) (cleanText (str ''Jane Doe'' @ [CR, LF] @ str ''Engineer'')))
     (Some (str ''Jane Doe'')) = None \<and>
   extractHeadline (split_on (\<lambda>c. c = LF) (cleanText (str ''Jane Doe'' @ [LF] @ str ''Engineer'')))
     (Some (str ''Jane Doe'')) = Some (str ''Engineer'')"
  by code_simp

subsection \<open>C4: the parser is total\<close>

text \<open>
  C4. For every string, \<open>parseResumeText\<close> returns a result: every function of the model
  is total (each recursion above comes with its termination proof), and the one place
  that could throw, the use of the second capture group in \<open>extractSkills\<close>, never does,
  since the group takes part in every match. The result carries the normalized text.
\<close>

theorem parseResumeText_total:
  "\<exists>r. parseResumeText text = Inr r \<and> rawText r = cleanText text"
  using parseResumeText_fields[of "text"] by blast

text \<open>C4 at the empty string: every field of the result is empty.\<close>

theorem parseResumeText_total_witness:
  "parseResumeText [] =
     Inr \<lparr>name = None, headline = None, githubUrl = None, githubUsername = None,
          emails = [], phones = [], skills = [], summary = [], rawText = []\<rparr>"
proof -
  have e: "parseResumeText [] =
     Inr \<lparr>name = None, headline = None, githubUrl = None, githubUsername = None,
          emails = [], phones = [], skills = [], summary = [], rawText = []\<rparr>"
    by code_simp
  obtain r where "parseResumeText [] = Inr r" "rawText r = cleanText []"
    using parseResumeText_total[of "[]"] by blast
  then show ?thesis
    using e by simp
qed

subsection \<open>C5: the skills section\<close>

text \<open>
  C5, as the claim states it, fails: the colon after the header is not optional. A text
  with the header \<open>Skills\<close> on a line of its own, a body and a blank line yields no
  skills; the same text with a colon after the header yields them.
\<close>

theorem skills_header_without_colon:
  "extractSkills (str ''Skills\<newline>Go, Rust\<newline>\<newline>End'') = Inr [] \<and>
   extractSkills (str ''Skills:\<newline>Go, Rust\<newline>\<newline>End'') = Inr [str ''Go'', str ''Rust'']"
  by code_simp

text \<open>
  C5, amended. The skills extractor matches a header of the fixed label set (compared
  without case) only when it is followed, after optional white space, by a colon: the
  colon is required, and one space after it is optional. A skills section is such a
  header and colon, at most one space, a body that is not empty, and after it a
  blank-line boundary or a stop-set keyword. For every text with a skills section the
  extractor takes the leftmost section, with the space after the colon left out of the
  body whenever a section is there that way, and with the shortest body; it splits this
  body at commas, bullets and line feeds, trims the pieces, drops those of at most one
  character and returns the first 15 of the others. For every other text, in particular
  one without a colon, it returns the empty sequence.
\<close>

theorem extractSkills_header_with_colon:
  "(first_skills_section text pre h w sp body rest \<longrightarrow>
      extractSkills text =
        Inr (take 15 (filter (\<lambda>piece. 1 < length piece)
               (map trim (split_on (\<lambda>c. c = Ch (CHR '','') \<or> c = Bullet \<or> c = LF) body))))) \<and>
   ((\<exists>pre h w sp body rest. skills_section text pre h w sp body rest) \<longrightarrow>
      (\<exists>pre h w sp body rest. first_skills_section text pre h w sp body rest)) \<and>
   (\<not> (\<exists>pre h w sp body rest. skills_section text pre h w sp body rest) \<longrightarrow>
      extractSkills text = Inr []) \<and>
   (Ch (CHR '':'') \<notin> set text \<longrightarrow> extractSkills text = Inr [])"
proof -
  have "\<not> skills_section text pre h w sp body rest"
    if "Ch (CHR '':'') \<notin> set text" for pre h w sp body rest
    using that unfolding skills_section_def by auto
  moreover have "skillTokens body =
      take 15 (filter (\<lambda>piece. 1 < length piece)
        (map trim (split_on (\<lambda>c. c = Ch (CHR '','') \<or> c = Bullet \<or> c = LF) body)))"
    by (simp add: skillTokens_def)
  ultimately show ?thesis
    using extractSkills_first_section[of "text" pre h w sp body rest] by metis
qed

text \<open>
  The amended C5 at a text whose skills section starts on the second line: the space
  after the colon is not part of the body, the body starts with a stop-set keyword and
  ends at the blank line, and the piece \<open>C\<close> is dropped. And at a text without a colon.
\<close>

theorem extractSkills_header_with_colon_witness:
  "first_skills_section
     (str ''CV\<newline>Skills: experience in Go, C'' @ Bullet # str '' Rust\<newline>\<newline>x'')
     (str ''CV\<newline>'') (str ''Skills'') [] (str '' '')
     (str ''experience in Go, C'' @ Bullet # str '' Rust'') (str ''\<newline>\<newline>x'') \<and>
   extractSkills
     (str ''CV\<newline>Skills: experience in Go, C'' @ Bullet # str '' Rust\<newline>\<newline>x'')
     = Inr [str ''experience in Go'', str ''Rust''] \<and>
   extractSkills (str ''Skills Go'') = Inr []"
proof -
  let ?t = "str ''CV\<newline>Skills: experience in Go, C'' @ Bullet # str '' Rust\<newline>\<newline>x''"
  let ?body = "str ''experience in Go, C'' @ Bullet # str '' Rust''"
  let ?rest = "str ''\<newline>\<newline>x''"
  have s: "skills_section ?t (str ''CV\<newline>'') (str ''Skills'') [] (str '' '') ?body ?rest"
    by code_simp
  have n: "\<forall>j\<in>set [0 ..< 3]. \<not> (\<exists>l\<in>set SKILLS_LABELS. ci_prefix l (drop j ?t))"
    by code_simp
  have l: "length (str ''CV\<newline>'') \<le> length pre'"
    if "skills_section ?t pre' h' w' sp' body' rest'" for pre' h' w' sp' body' rest'
  proof (rule ccontr)
    assume "\<not> length (str ''CV\<newline>'') \<le> length pre'"
    then have "length pre' \<in> set [0 ..< 3]"
      by simp
    then show False
      using n section_label_at[OF that] by blast
  qed
  have m: "\<forall>j\<in>set [1 ..< length ?body]. \<not> stop_at (drop j (?body @ ?rest))"
    by code_simp
  have f: "first_skills_section ?t (str ''CV\<newline>'') (str ''Skills'') [] (str '' '') ?body ?rest"
    unfolding first_skills_section_def using s l m by blast
  have k: "take 15 (filter (\<lambda>piece. 1 < length piece)
             (map trim (split_on (\<lambda>c. c = Ch (CHR '','') \<or> c = Bullet \<or> c = LF) ?body)))
           = [str ''experience in Go'', str ''Rust'']"
    by code_simp
  have "extractSkills ?t = Inr [str ''experience in Go'', str ''Rust'']"
    using extractSkills_header_with_colon[of ?t "str ''CV\<newline>''" "str ''Skills''" "[]" "str '' ''" ?body ?rest]
      f unfolding k by blast
  moreover have "extractSkills (str ''Skills Go'') = Inr []"
    using extractSkills_header_with_colon[of "str ''Skills Go''"] by simp
  ultimately show ?thesis
    using f by blast
qed

subsection \<open>C6: keyword points\<close>

text \<open>
  C6, as the claim states it, fails: a keyword counts once for a sentence, however often
  it occurs. The sentence \<open>led led\<close> holds the keyword \<open>led\<close> twice and gets two points
  for it, not four; its score is 2 + 7/10.
\<close>

theorem keyword_counted_once:
  "keywordScore (toLowerCase (str ''led led'')) = 2 \<and>
   spec_keywordScore (toLowerCase (str ''led led'')) = 4 \<and>
   scoreSentence (str ''led led'') = 27 / 10"
  by code_simp

text \<open>
  C6, amended. For every sentence, the score adds 2 points for each keyword of the fixed
  vocabulary that the lower-cased sentence contains as a substring, whatever the number
  of its occurrences; to this it adds the tenth of the length, at most 10, one point for
  a bullet (U+2022), an asterisk or a hyphen, and one point for a percent sign or a
  digit.
\<close>

theorem scoreSentence_per_keyword:
  "scoreSentence sentence =
     2 * of_nat (card {k \<in> set SUMMARY_KEYWORDS. sublist k (toLowerCase sentence)})
     + min (of_nat (length sentence) / 10) 10
     + (if \<exists>c\<in>set sentence. c = Bullet \<or> c = Ch (CHR ''*'') \<or> c = Ch (CHR ''-'')
        then 1 else 0)
     + (if \<exists>c\<in>set sentence. c = Ch (CHR ''%'') \<or> is_digit c then 1 else 0)"
proof -
  let ?lower = "toLowerCase sentence"
  have "keywordScore ?lower
      = 2 * of_nat (length (filter (\<lambda>k. sublist k ?lower) SUMMARY_KEYWORDS))"
    by (simp add: keywordScore_def foldl_points str_includes_sublist)
  moreover have "card {k \<in> set SUMMARY_KEYWORDS. sublist k ?lower}
      = length (filter (\<lambda>k. sublist k ?lower) SUMMARY_KEYWORDS)"
    using distinct_keywords by (metis distinct_card distinct_filter set_filter)
  ultimately have k: "keywordScore ?lower
      = 2 * of_nat (card {k \<in> set SUMMARY_KEYWORDS. sublist k ?lower})"
    by simp
  have b: "list_ex (\<lambda>c. c \<in> set (Bullet # str ''*-'')) sentence
      \<longleftrightarrow> (\<exists>c\<in>set sentence. c = Bullet \<or> c = Ch (CHR ''*'') \<or> c = Ch (CHR ''-''))"
    by (auto simp: list_ex_iff)
  have d: "Ch (CHR ''%'') \<in> set sentence \<or> list_ex is_digit sentence
      \<longleftrightarrow> (\<exists>c\<in>set sentence. c = Ch (CHR ''%'') \<or> is_digit c)"
    by (auto simp: list_ex_iff)
  show ?thesis
    unfolding scoreSentence_def Let_def k b d by simp
qed

text \<open>
  The amended C6 at a sentence that starts with a bullet and has one keyword,
  2 + 9/10 + 1, and at a sentence with one keyword twice, a hyphen and a digit, where
  the second keyword \<open>project\<close> makes it 4 + 21/10 + 1 + 1.
\<close>

theorem scoreSentence_per_keyword_witness:
  "scoreSentence (Bullet # str '' Led it.'') = 39 / 10 \<and>
   card {k \<in> set SUMMARY_KEYWORDS. sublist k (toLowerCase (Bullet # str '' Led it.''))} = 1 \<and>
   scoreSentence (str ''Led - led 2 projects.'') = 81 / 10 \<and>
   card {k \<in> set SUMMARY_KEYWORDS. sublist k (toLowerCase (str ''Led - led 2 projects.''))} = 2"
proof -
  let ?s = "str ''Led - led 2 projects.''"
  let ?u = "Bullet # str '' Led it.''"
  have e: "scoreSentence ?s = 81 / 10"
    by code_simp
  have l: "min (of_nat (length ?s) / 10) (10::rat) = 21 / 10"
    by simp
  have b: "\<exists>c\<in>set ?s. c = Bullet \<or> c = Ch (CHR ''*'') \<or> c = Ch (CHR ''-'')"
    by simp
  have g: "\<exists>c\<in>set ?s. c = Ch (CHR ''%'') \<or> is_digit c"
    by (simp add: is_digit_def digit_chars_def)
  have "(81 / 10 :: rat) =
      2 * of_nat (card {k \<in> set SUMMARY_KEYWORDS. sublist k (toLowerCase ?s)}) + 21 / 10 + 1 + 1"
    using scoreSentence_per_keyword[of ?s] unfolding e l using b g by simp
  then have "(of_nat (card {k \<in> set SUMMARY_KEYWORDS. sublist k (toLowerCase ?s)}) :: rat) = of_nat 2"
    by simp
  then have 1: "card {k \<in> set SUMMARY_KEYWORDS. sublist k (toLowerCase ?s)} = 2"
    using of_nat_eq_iff by blast
  have e': "scoreSentence ?u = 39 / 10"
    by code_simp
  have l': "min (of_nat (length ?u) / 10) (10::rat) = 9 / 10"
    by simp
  have b': "\<exists>c\<in>set ?u. c = Bullet \<or> c = Ch (CHR ''*'') \<or> c = Ch (CHR ''-'')"
    by simp
  have g': "\<not> (\<exists>c\<in>set ?u. c = Ch (CHR ''%'') \<or> is_digit c)"
    by (simp add: is_digit_def digit_chars_def)
  have "(39 / 10 :: rat) =
      2 * of_nat (card {k \<in> set SUMMARY_KEYWORDS. sublist k (toLowerCase ?u)}) + 9 / 10 + 1 + 0"
    using scoreSentence_per_keyword[of ?u] unfolding e' l' using b' g' by simp
  then have "(of_nat (card {k \<in> set SUMMARY_KEYWORDS. sublist k (toLowerCase ?u)}) :: rat) = of_nat 1"
    by simp
  then have 2: "card {k \<in> set SUMMARY_KEYWORDS. sublist k (toLowerCase ?u)} = 1"
    using of_nat_eq_iff by blast
  show ?thesis
    using e e' 1 2 by blast
qed

subsection \<open>C7: the selection of the summary\<close>

text \<open>
  C7. For every list of sentences, \<open>buildSummary\<close> returns the first four of the ranked
  list: the same sentences, in descending order of score, with the sentences of equal
  score in their original order. The empty list yields the empty sequence, the result
  has at most four entries, and so has the \<open>summary\<close> field of every result.
\<close>

theorem buildSummary_top4:
  "(\<exists>ranked. mset ranked = mset sentences \<and>
      sorted_wrt (\<lambda>a b. scoreSentence b \<le> scoreSentence a) ranked \<and>
      (\<forall>k. filter (\<lambda>x. scoreSentence x = k) ranked = filter (\<lambda>x. scoreSentence x = k) sentences) \<and>
      buildSummary sentences = take 4 ranked) \<and>
   buildSummary [] = [] \<and>
   length (buildSummary sentences) \<le> 4 \<and>
   (\<forall>r. parseResumeText s = Inr r \<longrightarrow> length (summary r) \<le> 4)"
proof -
  let ?ranked = "sort_key (\<lambda>s. - scoreSentence s) sentences"
  have 1: "mset ?ranked = mset sentences"
    by simp
  have "sorted (map (\<lambda>s. - scoreSentence s) ?ranked)"
    by (rule sorted_sort_key)
  then have 2: "sorted_wrt (\<lambda>a b. scoreSentence b \<le> scoreSentence a) ?ranked"
    by (simp add: sorted_map)
  have 3: "filter (\<lambda>x. scoreSentence x = k) ?ranked = filter (\<lambda>x. scoreSentence x = k) sentences"
    for k
    using sort_key_stable[of "\<lambda>s. - scoreSentence s" "- k" sentences] by simp
  have 4: "buildSummary sentences = take 4 ?ranked"
    by (rule buildSummary_eq)
  have 5: "buildSummary [] = []"
    by (simp add: buildSummary_def)
  have 6: "length (buildSummary sentences) \<le> 4"
    by (simp add: buildSummary_eq)
  show ?thesis
    using 1 2 3 4 5 6 summary_length by blast
qed

text \<open>
  C7 at six sentences with the scores 29/10, 3/10, 36/10, 3/10, 3/10 and 28/10: the three
  best come first, and the first of the three sentences of equal score follows.
\<close>

theorem buildSummary_top4_witness:
  "buildSummary [str ''Built it.'', str ''Hi.'', str ''Led 3.'', str ''Yo.'', str ''Ok.'', str ''Managed.'']
     = [str ''Led 3.'', str ''Built it.'', str ''Managed.'', str ''Hi.''] \<and>
   length (buildSummary [str ''Built it.'', str ''Hi.'', str ''Led 3.'', str ''Yo.'', str ''Ok.'', str ''Managed.'']) \<le> 4 \<and>
   (\<exists>r. parseResumeText [] = Inr r \<and> length (summary r) \<le> 4)"
proof -
  let ?ss = "[str ''Built it.'', str ''Hi.'', str ''Led 3.'', str ''Yo.'', str ''Ok.'', str ''Managed.'']"
  have e: "buildSummary ?ss = [str ''Led 3.'', str ''Built it.'', str ''Managed.'', str ''Hi.'']"
    by code_simp
  obtain r where r: "parseResumeText [] = Inr r"
    using parseResumeText_fields[of "[]"] by blast
  have "length (buildSummary ?ss) \<le> 4" "length (summary r) \<le> 4"
    using buildSummary_top4[of ?ss "[]"] r by blast+
  then show ?thesis
    using e r by blast
qed

subsection \<open>C8: normalization is idempotent\<close>

text \<open>
  C8. Text normalization is idempotent: for every string \<open>s\<close>, normalizing the normalized
  text returns it unchanged, \<open>cleanText (cleanText s) = cleanText s\<close>.
\<close>

theorem cleanText_idempotent: "cleanText (cleanText s) = cleanText s"
proof -
  let ?t = "cleanText s"
  have 1: "map (\<lambda>c. if c = CR then LF else c) ?t = ?t"
    using cleanText_no_CR[of s] by (intro map_idI) auto
  have 2: "replace_runs (\<lambda>c. c = LF) 2 [LF, LF] ?t = ?t"
    using cleanText_no3 by (rule squeeze_fix)
  have 3: "trim ?t = ?t"
    unfolding cleanText_def by (rule trim_idem)
  show ?thesis
    using 1 2 3 by (simp add: cleanText_def[of "cleanText s"])
qed

text \<open>C8 at a text with a CR, a run of four line feeds and white space at both ends.\<close>

theorem cleanText_idempotent_witness:
  "cleanText (str '' a'' @ [CR] @ str ''b\<newline>\<newline>\<newline>\<newline>c '') = str ''a\<newline>b\<newline>\<newline>c'' \<and>
   cleanText (str ''a\<newline>b\<newline>\<newline>c'') = str ''a\<newline>b\<newline>\<newline>c''"
proof -
  have e: "cleanText (str '' a'' @ [CR] @ str ''b\<newline>\<newline>\<newline>\<newline>c '') = str ''a\<newline>b\<newline>\<newline>c''"
    by code_simp
  show ?thesis
    using cleanText_idempotent[of "str '' a'' @ [CR] @ str ''b\<newline>\<newline>\<newline>\<newline>c ''"] unfolding e by simp
qed

subsection \<open>C9: the name\<close>

text \<open>
  C9, as the claim states it, fails: the line is split on the space character, not on
  white space, and empty pieces count. A line of four words with two spaces between them
  has seven pieces and is passed over, although it has at most five words.
\<close>

theorem extractName_counts_pieces:
  "spec_name_line (str ''Jane  van  der  Doe'') \<and> extractName [str ''Jane  van  der  Doe''] = None"
  by code_simp

text \<open>
  C9, amended. For every list of lines, name extraction returns the trimmed content of the
  first line whose trimmed content is non-empty, has length at most 60, contains no
  digit, does not contain the phrase "curriculum vitae" in any case, and splits on the
  space character into at most 5 pieces, that is, contains at most 4 space characters; it
  returns null exactly when no line satisfies these conditions.
\<close>

theorem extractName_first_line:
  "extractName lines = map_option trim (find name_line lines) \<and>
   (extractName lines = None \<longleftrightarrow> (\<forall>line\<in>set lines. \<not> name_line line))"
proof -
  have first: "extractName lines = map_option trim (find name_line lines)"
  proof (induction lines)
    case Nil
    then show ?case by simp
  next
    case (Cons line lines)
    have pieces: "length (split_on (\<lambda>c. c = Ch (CHR '' '')) (trim line)) \<le> 5
        \<longleftrightarrow> length (filter (\<lambda>c. c = Ch (CHR '' '')) (trim line)) \<le> 4"
      by (simp add: length_split_on)
    show ?case
    proof (cases "name_line line")
      case True
      then show ?thesis
        using pieces by (simp add: name_line_def Let_def str_includes_sublist)
    next
      case False
      then show ?thesis
        using pieces Cons.IH by (auto simp: name_line_def Let_def str_includes_sublist)
    qed
  qed
  then have "extractName lines = None \<longleftrightarrow> (\<forall>line\<in>set lines. \<not> name_line line)"
    by (auto simp: find_None_iff)
  then show ?thesis
    using first by blast
qed

text \<open>
  The amended C9 at four lines: an empty one, one with a digit, the name, a title.
\<close>

theorem extractName_first_line_witness:
  "extractName [str '''', str ''Resume 2024'', str '' Jane Doe '', str ''Engineer''] = Some (str ''Jane Doe'') \<and>
   find name_line [str '''', str ''Resume 2024'', str '' Jane Doe '', str ''Engineer''] = Some (str '' Jane Doe '') \<and>
   extractName [str '''', str ''Resume 2024''] = None"
proof -
  have f: "find name_line [str '''', str ''Resume 2024'', str '' Jane Doe '', str ''Engineer''] = Some (str '' Jane Doe '')"
    by code_simp
  have t: "trim (str '' Jane Doe '') = str ''Jane Doe''"
    by code_simp
  have n: "\<not> name_line (str '''')" "\<not> name_line (str ''Resume 2024'')"
    by code_simp+
  have "extractName [str '''', str ''Resume 2024'', str '' Jane Doe '', str ''Engineer'']
      = map_option trim (find name_line [str '''', str ''Resume 2024'', str '' Jane Doe '', str ''Engineer''])"
    using extractName_first_line[of "[str '''', str ''Resume 2024'', str '' Jane Doe '', str ''Engineer'']"]
    by (rule conjunct1)
  then have 1: "extractName [str '''', str ''Resume 2024'', str '' Jane Doe '', str ''Engineer''] = Some (str ''Jane Doe'')"
    by (simp only: f option.map t)
  have "\<forall>line\<in>set [str '''', str ''Resume 2024'']. \<not> name_line line"
    using n by simp
  then have 2: "extractName [str '''', str ''Resume 2024''] = None"
    using extractName_first_line[of "[str '''', str ''Resume 2024'']"] by blast
  show ?thesis
    using 1 2 f by blast
qed

subsection \<open>C10: the user name of the profile link\<close>

text \<open>
  For every input string, a user name in the result is not empty and has no slash and no
  white space, and the profile URL is the host followed by it.
\<close>

lemma githubUsername_no_slash:
  assumes "parseResumeText text = Inr r" "githubUsername r = Some u"
  shows "u \<noteq> [] \<and> Ch (CHR ''/'') \<notin> set u \<and> (\<forall>c\<in>set u. \<not> is_space c) \<and>
         githubUrl r = Some (str ''https://github.com/'' @ u)"
proof -
  from assms have un: "usernameOf (rawGithubUrl (cleanText text)) = Some u"
    and url: "githubUrl r = Some (str ''https://github.com/'' @ u)"
    by (auto simp: parseResumeText_def Let_def split: sum.splits)
  from usernameOf_Some[OF un] obtain url where
    u: "u = takeWhile segment_char (drop 11 (stripHost url))" "u \<noteq> []"
    by blast
  have "\<forall>c\<in>set u. segment_char c"
    unfolding u(1) using set_takeWhileD by fastforce
  then have "Ch (CHR ''/'') \<notin> set u" "\<forall>c\<in>set u. \<not> is_space c"
    by (auto simp: segment_char_def)
  then show ?thesis
    using u(2) url by blast
qed

text \<open>
  C10. The user name is not always the path segment that follows the host. Before the
  user name is read, the first \<^verbatim>\<open>www.\<close> is removed from the link wherever it stands
  (\<^verbatim>\<open>replace(/www\./, "")\<close>, with no anchor), so a link that has no \<^verbatim>\<open>www.\<close> before
  the host loses the first \<^verbatim>\<open>www.\<close> of its path. For the link
  \<^verbatim>\<open>https://github.com/awww.b\<close> the segment after the host is \<^verbatim>\<open>awww.b\<close>; the
  parser reads the user name from \<^verbatim>\<open>github.com/ab\<close>, returns \<^verbatim>\<open>ab\<close>, and rebuilds
  the profile URL of another account. For \<^verbatim>\<open>https://github.com/www.x/y\<close> it returns
  \<^verbatim>\<open>x\<close>, where the segment is \<^verbatim>\<open>www.x\<close>.
\<close>

theorem githubUsername_www_in_segment:
  "(\<exists>r. parseResumeText (str ''https://github.com/awww.b'') = Inr r \<and>
        rawGithubUrl (cleanText (str ''https://github.com/awww.b''))
          = Some (str ''https://github.com/awww.b'') \<and>
        stripHost (str ''https://github.com/awww.b'') = str ''github.com/ab'' \<and>
        githubUsername r = Some (str ''ab'') \<and>
        githubUrl r = Some (str ''https://github.com/ab'')) \<and>
   (\<exists>r. parseResumeText (str ''https://github.com/www.x/y'') = Inr r \<and>
        rawGithubUrl (cleanText (str ''https://github.com/www.x/y''))
          = Some (str ''https://github.com/www.x/y'') \<and>
        stripHost (str ''https://github.com/www.x/y'') = str ''github.com/x/y'' \<and>
        githubUsername r = Some (str ''x'') \<and>
        githubUrl r = Some (str ''https://github.com/x''))"
proof -
  let ?t = "str ''https://github.com/awww.b''"
  have c: "cleanText ?t = ?t"
    by code_simp
  have g: "rawGithubUrl ?t = Some ?t"
    by code_simp
  have s: "stripHost ?t = str ''github.com/ab''"
    by code_simp
  have n: "usernameOf (Some ?t) = Some (str ''ab'')"
    by code_simp
  obtain r where r: "parseResumeText ?t = Inr r" "githubUsername r = Some (str ''ab'')"
    using parseResumeText_fields[of ?t] unfolding c g n by blast
  then have "githubUrl r = Some (str ''https://github.com/ab'')"
    by (auto simp: parseResumeText_def Let_def split: sum.splits)
  then have 1: "\<exists>r. parseResumeText ?t = Inr r \<and> rawGithubUrl (cleanText ?t) = Some ?t \<and>
      stripHost ?t = str ''github.com/ab'' \<and> githubUsername r = Some (str ''ab'') \<and>
      githubUrl r = Some (str ''https://github.com/ab'')"
    using r c g s by auto
  let ?t' = "str ''https://github.com/www.x/y''"
  have c': "cleanText ?t' = ?t'"
    by code_simp
  have g': "rawGithubUrl ?t' = Some ?t'"
    by code_simp
  have s': "stripHost ?t' = str ''github.com/x/y''"
    by code_simp
  have n': "usernameOf (Some ?t') = Some (str ''x'')"
    by code_simp
  obtain r' where r': "parseResumeText ?t' = Inr r'" "githubUsername r' = Some (str ''x'')"
    using parseResumeText_fields[of ?t'] unfolding c' g' n' by blast
  then have "githubUrl r' = Some (str ''https://github.com/x'')"
    by (auto simp: parseResumeText_def Let_def split: sum.splits)
  then have 2: "\<exists>r. parseResumeText ?t' = Inr r \<and> rawGithubUrl (cleanText ?t') = Some ?t' \<and>
      stripHost ?t' = str ''github.com/x/y'' \<and> githubUsername r = Some (str ''x'') \<and>
      githubUrl r = Some (str ''https://github.com/x'')"
    using r' c' g' s' by auto
  show ?thesis
    using 1 2 by blast
qed

end
